theory Spec2Isabelle
  imports Main "HOL-Library.Word"
begin

section \<open>ArrayList: a dynamic array of opaque element handles\<close>

text \<open>
  A shallow embedding of \<^verbatim>\<open>ArrayList.c\<close> for an LP64 target: \<^verbatim>\<open>size_t\<close> and
  \<^verbatim>\<open>void *\<close> are 64 bits wide, \<^verbatim>\<open>sizeof(void *)\<close> is 8 and \<^verbatim>\<open>int\<close> is 32 bits.
  All arithmetic on \<^verbatim>\<open>size_t\<close> wraps around, as it does in C.
\<close>

subsection \<open>Data model\<close>

type_synonym size_t = "64 word"
type_synonym ssize_t = "64 word"  \<comment> \<open>read as a signed value with \<open>sint\<close>\<close>
type_synonym ptr = "64 word"      \<comment> \<open>\<^verbatim>\<open>void *\<close>: an address\<close>
type_synonym c_int = "32 word"

definition NULL :: ptr where
  "NULL = 0"

text \<open>
  \<^verbatim>\<open>struct ArrayList { void **arr; size_t n; size_t length; }\<close>.
  The field \<open>al_arr\<close> is the heap block \<^verbatim>\<open>arr\<close> points to, one list entry per
  \<^verbatim>\<open>void *\<close> slot, so \<open>length (al_arr s)\<close> is the number of slots that were really
  allocated; \<open>al_n\<close> is the field \<^verbatim>\<open>n\<close> and \<open>al_length\<close> the field \<^verbatim>\<open>length\<close>.
\<close>

record ArrayList =
  al_arr :: "ptr list"
  al_n :: size_t
  al_length :: size_t

text \<open>
  How a call can end other than by returning: \<^verbatim>\<open>THROW_ERROR("out of memory")\<close>,
  \<^verbatim>\<open>THROW_ERROR("Index out of range")\<close> (both print and \<^verbatim>\<open>exit(EXIT_FAILURE)\<close>), and an
  access outside the allocated block, which is undefined behaviour in C and is made an
  explicit outcome here. A failed call carries the container as it was at that moment.
\<close>

datatype error = OutOfMemory | IndexOutOfRange | MemoryFault

type_synonym 'a result = "(error \<times> ArrayList) + 'a"

definition then_do :: "'a result \<Rightarrow> ('a \<Rightarrow> 'b result) \<Rightarrow> 'b result" where
  "then_do m f = (case m of Inl e \<Rightarrow> Inl e | Inr x \<Rightarrow> f x)"

subsection \<open>The C library allocator\<close>

text \<open>
  \<^verbatim>\<open>malloc\<close>, \<^verbatim>\<open>calloc\<close> and \<^verbatim>\<open>realloc\<close> belong to the C library, not to the repository;
  the allocator is a parameter of every operation that allocates. Asked for a number of
  bytes it either fails (\<open>None\<close>, the \<^verbatim>\<open>NULL\<close> return) or hands out a block, and then
  tells what the fresh slots contain before anything is written to them (\<^verbatim>\<open>realloc\<close>
  leaves them indeterminate). A block of \<open>b\<close> bytes has \<open>b div 8\<close> pointer slots.
\<close>

type_synonym allocator = "size_t \<Rightarrow> (nat \<Rightarrow> ptr) option"

definition sizeof_ptr :: size_t where
  "sizeof_ptr = 8"

definition sizeof_ArrayList :: size_t where
  "sizeof_ArrayList = 24"

definition slots_of :: "size_t \<Rightarrow> nat" where
  "slots_of bytes = unat bytes div 8"

text \<open>\<^verbatim>\<open>calloc(nmemb, size)\<close> fails when the product overflows and zero-fills the block.\<close>

definition calloc :: "allocator \<Rightarrow> size_t \<Rightarrow> size_t \<Rightarrow> ptr list option" where
  "calloc A nmemb sz =
     (if 2 ^ 64 \<le> unat nmemb * unat sz then None
      else case A (nmemb * sz) of
             None \<Rightarrow> None
           | Some f \<Rightarrow> Some (replicate (slots_of (nmemb * sz)) NULL))"

text \<open>\<^verbatim>\<open>realloc(p, bytes)\<close> keeps the old contents up to the smaller of the two sizes.\<close>

definition realloc :: "allocator \<Rightarrow> ptr list \<Rightarrow> size_t \<Rightarrow> ptr list option" where
  "realloc A blk bytes =
     (case A bytes of
        None \<Rightarrow> None
      | Some f \<Rightarrow> Some (map (\<lambda>i. if i < length blk then blk ! i else f i) [0..<slots_of bytes]))"

subsection \<open>Memory accesses\<close>

text \<open>\<^verbatim>\<open>list->arr[i] = v\<close> and \<^verbatim>\<open>memmove\<close>: inside the block or a memory fault.\<close>

definition store :: "ArrayList \<Rightarrow> size_t \<Rightarrow> ptr \<Rightarrow> ArrayList result" where
  "store s i v =
     (if unat i < length (al_arr s) then Inr (s\<lparr>al_arr := (al_arr s)[unat i := v]\<rparr>)
      else Inl (MemoryFault, s))"

definition memmove :: "ArrayList \<Rightarrow> size_t \<Rightarrow> size_t \<Rightarrow> size_t \<Rightarrow> ArrayList result" where
  "memmove s dst src bytes =
     (let k = slots_of bytes; blk = al_arr s in
      if unat src + k \<le> length blk \<and> unat dst + k \<le> length blk
      then Inr (s\<lparr>al_arr := take (unat dst) blk @ take k (drop (unat src) blk)
                                @ drop (unat dst + k) blk\<rparr>)
      else Inl (MemoryFault, s))"

subsection \<open>The operations of ArrayList.c\<close>

definition init :: "allocator \<Rightarrow> size_t \<Rightarrow> error + ArrayList" where
  "init A len =
     (case A sizeof_ArrayList of
        None \<Rightarrow> Inl OutOfMemory
      | Some _ \<Rightarrow>
          (case calloc A (len + 1) sizeof_ptr of
             None \<Rightarrow> Inl OutOfMemory
           | Some blk \<Rightarrow>
               (case store \<lparr>al_arr = blk, al_n = 0, al_length = len\<rparr> 0 NULL of
                  Inl (e, _) \<Rightarrow> Inl e
                | Inr s \<Rightarrow> Inr s)))"

definition resize :: "allocator \<Rightarrow> ArrayList \<Rightarrow> size_t \<Rightarrow> ArrayList result" where
  "resize A s sz =
     (if sz \<le> al_n s then Inr s
      else case realloc A (al_arr s) ((sz + 1) * sizeof_ptr) of
             None \<Rightarrow> Inl (OutOfMemory, s)
           | Some newArr \<Rightarrow> Inr (s\<lparr>al_arr := newArr, al_length := sz\<rparr>))"

definition push_back :: "allocator \<Rightarrow> ArrayList \<Rightarrow> ptr \<Rightarrow> ArrayList result" where
  "push_back A s element =
     then_do (if al_n s = al_length s then resize A s (al_length s * 2 + 1) else Inr s) (\<lambda>s1.
     then_do (store s1 (al_n s1) element) (\<lambda>s2.
     let s3 = s2\<lparr>al_n := al_n s2 + 1\<rparr> in
     store s3 (al_n s3) NULL))"

text \<open>
  \<^verbatim>\<open>pop_back\<close> on an empty list prints one line to \<^verbatim>\<open>stderr\<close> and returns; the lines
  written are returned next to the container.
\<close>

definition pop_back :: "ArrayList \<Rightarrow> (ArrayList \<times> string list) result" where
  "pop_back s =
     (if al_n s = 0 then Inr (s, [''[ERROR] Empty list in function: pop_back''])
      else let s1 = s\<lparr>al_n := al_n s - 1\<rparr> in
           then_do (store s1 (al_n s1) NULL) (\<lambda>s2. Inr (s2, [])))"

definition shrink_to_fit :: "allocator \<Rightarrow> ArrayList \<Rightarrow> ArrayList result" where
  "shrink_to_fit A s =
     (if al_n s = al_length s then Inr s
      else case realloc A (al_arr s) ((al_n s + 1) * sizeof_ptr) of
             None \<Rightarrow> Inl (OutOfMemory, s)
           | Some newArr \<Rightarrow> Inr (s\<lparr>al_arr := newArr, al_length := al_n s\<rparr>))"

definition get_length :: "ArrayList \<Rightarrow> size_t" where
  "get_length s = al_length s"

definition get_number_of_elements :: "ArrayList \<Rightarrow> size_t" where
  "get_number_of_elements s = al_n s"

definition insert_at :: "allocator \<Rightarrow> ArrayList \<Rightarrow> ptr \<Rightarrow> size_t \<Rightarrow> ArrayList result" where
  "insert_at A s element index =
     (if index > al_n s then Inl (IndexOutOfRange, s)
      else
        then_do (if al_n s = al_length s then resize A s (al_length s * 2 + 1) else Inr s) (\<lambda>s1.
        then_do (memmove s1 (index + 1) index ((al_n s1 - index) * sizeof_ptr)) (\<lambda>s2.
        then_do (store s2 index element) (\<lambda>s3.
        let s4 = s3\<lparr>al_n := al_n s3 + 1\<rparr> in
        store s4 (al_n s4) NULL))))"

text \<open>The loop of \<^verbatim>\<open>remove_at\<close>: \<^verbatim>\<open>for (i = index; i < n - 1; i++) arr[i] = arr[i + 1]\<close>.\<close>

function remove_loop :: "ArrayList \<Rightarrow> size_t \<Rightarrow> ArrayList result" where
  "remove_loop s i =
     (if i < al_n s - 1 then
        (if unat (i + 1) < length (al_arr s) \<and> unat i < length (al_arr s)
         then remove_loop (s\<lparr>al_arr := (al_arr s)[unat i := al_arr s ! unat (i + 1)]\<rparr>) (i + 1)
         else Inl (MemoryFault, s))
      else Inr s)"
  by pat_completeness auto
termination
proof (relation "measure (\<lambda>(s, i). unat (al_n s - 1) - unat i)")
  show "wf (measure (\<lambda>(s, i). unat (al_n s - 1) - unat i))"
    by simp
next
  fix s :: ArrayList and i :: size_t
  assume lt: "i < al_n s - 1"
  then have "unat i < unat (al_n s - 1)"
    by (simp add: word_less_nat_alt)
  moreover have "unat (al_n s - 1) < 2 ^ 64"
    using unsigned_less [of "al_n s - 1", where 'a = nat] by simp
  ultimately have "unat i + 1 < 2 ^ 64"
    by linarith
  then have "unat (i + 1) = unat i + 1"
    by (simp add: unat_word_ariths)
  with \<open>unat i < unat (al_n s - 1)\<close> show
    "((s\<lparr>al_arr := (al_arr s)[unat i := al_arr s ! unat (i + 1)]\<rparr>, i + 1), (s, i))
       \<in> measure (\<lambda>(s, i). unat (al_n s - 1) - unat i)"
    by simp
qed

declare remove_loop.simps [simp del]

definition remove_at :: "ArrayList \<Rightarrow> size_t \<Rightarrow> ArrayList result" where
  "remove_at s index =
     (if index \<ge> al_n s then Inl (IndexOutOfRange, s)
      else
        then_do (remove_loop s index) (\<lambda>s1.
        let s2 = s1\<lparr>al_n := al_n s1 - 1\<rparr> in
        store s2 (al_n s2) NULL))"

text \<open>
  The loop of \<^verbatim>\<open>find\<close>. The comparator is the caller's
  \<^verbatim>\<open>int (*cmp)(const void *, const void *)\<close>; a match is the return value 0.
\<close>

function find_loop :: "ArrayList \<Rightarrow> ptr \<Rightarrow> (ptr \<Rightarrow> ptr \<Rightarrow> c_int) \<Rightarrow> size_t \<Rightarrow> ssize_t result" where
  "find_loop s element cmp i =
     (if i < al_n s then
        (if unat i < length (al_arr s)
         then (if cmp (al_arr s ! unat i) element = 0 then Inr i
               else find_loop s element cmp (i + 1))
         else Inl (MemoryFault, s))
      else Inr (- 1))"
  by pat_completeness auto
termination
proof (relation "measure (\<lambda>(s, element, cmp, i). unat (al_n s) - unat i)")
  show "wf (measure (\<lambda>(s, element, cmp, i). unat (al_n s) - unat i))"
    by simp
next
  fix s :: ArrayList and element :: ptr and cmp :: "ptr \<Rightarrow> ptr \<Rightarrow> c_int" and i :: size_t
  assume lt: "i < al_n s"
  then have "unat i < unat (al_n s)"
    by (simp add: word_less_nat_alt)
  moreover have "unat (al_n s) < 2 ^ 64"
    using unsigned_less [of "al_n s", where 'a = nat] by simp
  ultimately have "unat i + 1 < 2 ^ 64"
    by linarith
  then have "unat (i + 1) = unat i + 1"
    by (simp add: unat_word_ariths)
  with \<open>unat i < unat (al_n s)\<close> show
    "((s, element, cmp, i + 1), (s, element, cmp, i))
       \<in> measure (\<lambda>(s, element, cmp, i). unat (al_n s) - unat i)"
    by simp
qed

declare find_loop.simps [simp del]

definition find :: "ArrayList \<Rightarrow> ptr \<Rightarrow> (ptr \<Rightarrow> ptr \<Rightarrow> c_int) \<Rightarrow> ssize_t result" where
  "find s element cmp = find_loop s element cmp 0"

subsection \<open>Sequences of calls\<close>

text \<open>
  A call of one of the mutating operations, with the allocator it meets, and a run of
  calls in order; a run stops at the first call that does not return.
\<close>

datatype call =
    Push_back allocator ptr
  | Pop_back
  | Insert_at allocator ptr size_t
  | Remove_at size_t
  | Resize allocator size_t
  | Shrink_to_fit allocator

fun exec :: "ArrayList \<Rightarrow> call \<Rightarrow> ArrayList result" where
  "exec s (Push_back A e) = push_back A s e"
| "exec s Pop_back = then_do (pop_back s) (\<lambda>(s', out). Inr s')"
| "exec s (Insert_at A e i) = insert_at A s e i"
| "exec s (Remove_at i) = remove_at s i"
| "exec s (Resize A sz) = resize A s sz"
| "exec s (Shrink_to_fit A) = shrink_to_fit A s"

fun run :: "ArrayList \<Rightarrow> call list \<Rightarrow> ArrayList result" where
  "run s [] = Inr s"
| "run s (c # cs) = then_do (exec s c) (\<lambda>s'. run s' cs)"

subsection \<open>Abstraction and representation invariant\<close>

text \<open>The stored elements are the first \<open>n\<close> slots of the block.\<close>

definition elements :: "ArrayList \<Rightarrow> ptr list" where
  "elements s = take (unat (al_n s)) (al_arr s)"

text \<open>
  A well-formed container: the count is at most the capacity, the block has one slot more
  than the capacity (the terminator slot of \<^verbatim>\<open>init\<close> and \<^verbatim>\<open>resize\<close>), and the size of
  the block in bytes is a \<^verbatim>\<open>size_t\<close>.
\<close>

definition valid :: "ArrayList \<Rightarrow> bool" where
  "valid s \<longleftrightarrow>
     unat (al_n s) \<le> unat (al_length s) \<and>
     length (al_arr s) = unat (al_length s) + 1 \<and>
     8 * length (al_arr s) < 2 ^ 64"

text \<open>The weaker fact that survives every call: count within capacity, block addressable.\<close>

definition bounded :: "ArrayList \<Rightarrow> bool" where
  "bounded s \<longleftrightarrow>
     unat (al_n s) \<le> unat (al_length s) \<and> 8 * length (al_arr s) < 2 ^ 64"

text \<open>
  The first statement of \<^verbatim>\<open>push_back\<close> and of \<^verbatim>\<open>insert_at\<close> after its range check,
  under a name of its own.
\<close>

definition grow_step :: "allocator \<Rightarrow> ArrayList \<Rightarrow> ArrayList result" where
  "grow_step A s = (if al_n s = al_length s then resize A s (al_length s * 2 + 1) else Inr s)"

text \<open>
  The argument \<^verbatim>\<open>(size + 1) * sizeof(void *)\<close> that \<^verbatim>\<open>realloc\<close> receives in the growth
  step of \<^verbatim>\<open>push_back\<close> and \<^verbatim>\<open>insert_at\<close>, where \<^verbatim>\<open>size\<close> is \<^verbatim>\<open>length * 2 + 1\<close>.
\<close>

definition growth_request :: "ArrayList \<Rightarrow> size_t" where
  "growth_request s = (al_length s * 2 + 1 + 1) * sizeof_ptr"

text \<open>
  A full container can grow when the allocator grants the request and the request has
  not wrapped around.
\<close>

definition can_grow :: "allocator \<Rightarrow> ArrayList \<Rightarrow> bool" where
  "can_grow A s \<longleftrightarrow>
     al_n s \<noteq> al_length s \<or>
     (A (growth_request s) \<noteq> None \<and> 8 * (2 * unat (al_length s) + 2) < 2 ^ 64)"

section \<open>Properties\<close>

subsection \<open>Arithmetic on \<^verbatim>\<open>size_t\<close>\<close>

lemma unat_lt64: "unat (x::64 word) < 18446744073709551616"
  using unsigned_less[of x, where 'a=nat] by simp

lemma unat_succ_less: "(i::64 word) < m \<Longrightarrow> unat (i + 1) = unat i + 1"
proof -
  assume "i < m"
  then have "unat i < unat m"
    by (simp add: word_less_nat_alt)
  with unat_lt64 [of m] have "unat i + 1 < 18446744073709551616"
    by linarith
  then show ?thesis
    by (simp add: unat_word_ariths)
qed

lemma unat_plus1: "unat (x::64 word) + 1 < 18446744073709551616 \<Longrightarrow> unat (x + 1) = unat x + 1"
  by (simp add: unat_word_ariths)

lemma unat_slot_bytes:
  "unat (x::64 word) < 2305843009213693952 \<Longrightarrow> unat (x * sizeof_ptr) = unat x * 8"
  by (simp add: unat_word_ariths sizeof_ptr_def)

lemma slots_of_bytes:
  "unat (x::64 word) < 2305843009213693952 \<Longrightarrow> slots_of (x * sizeof_ptr) = unat x"
  by (simp add: slots_of_def unat_slot_bytes)

lemma unat_double_succ:
  "unat (x::64 word) < 9223372036854775808 \<Longrightarrow> unat (x * 2 + 1) = 2 * unat x + 1"
  by (simp add: unat_word_ariths mod_simps)

subsection \<open>Blocks handed out by the allocator\<close>

lemma slots_of_bound: "8 * slots_of b < 18446744073709551616"
proof -
  have "8 * (unat b div 8) \<le> unat b" by simp
  with unat_lt64 [of b] show ?thesis unfolding slots_of_def by linarith
qed

lemma realloc_length: "realloc A blk b = Some new \<Longrightarrow> length new = slots_of b"
  by (auto simp: realloc_def split: option.splits)

lemma realloc_nth:
  "realloc A blk b = Some new \<Longrightarrow> i < length blk \<Longrightarrow> i < slots_of b \<Longrightarrow> new ! i = blk ! i"
  by (auto simp: realloc_def split: option.splits)

lemma realloc_take:
  assumes "realloc A blk b = Some new" "k \<le> length blk" "k \<le> slots_of b"
  shows "take k new = take k blk"
proof (rule nth_equalityI)
  show "length (take k new) = length (take k blk)"
    using assms by (simp add: realloc_length)
next
  fix i assume "i < length (take k new)"
  then show "take k new ! i = take k blk ! i"
    using assms by (simp add: realloc_length realloc_nth)
qed

lemma realloc_None: "realloc A blk b = None \<longleftrightarrow> A b = None"
  by (auto simp: realloc_def split: option.splits)

subsection \<open>Sequencing, stores and the invariant\<close>

lemma then_do_Inr: "then_do m f = Inr y \<longleftrightarrow> (\<exists>x. m = Inr x \<and> f x = Inr y)"
  by (cases m) (simp_all add: then_do_def)

lemma then_do_simps: "then_do (Inr x) f = f x" "then_do (Inl e) f = Inl e"
  by (simp_all add: then_do_def)

lemma store_Inr:
  "store s i v = Inr s' \<longleftrightarrow> unat i < length (al_arr s) \<and> s' = s\<lparr>al_arr := (al_arr s)[unat i := v]\<rparr>"
  by (auto simp: store_def)

lemma store_ok:
  "unat i < length (al_arr s) \<Longrightarrow> store s i v = Inr (s\<lparr>al_arr := (al_arr s)[unat i := v]\<rparr>)"
  by (simp add: store_def)

lemma valid_bounded: "valid s \<Longrightarrow> bounded s"
  by (simp add: valid_def bounded_def)

lemma valid_n_small: "valid s \<Longrightarrow> unat (al_n s) + 1 < 2305843009213693952"
  by (simp add: valid_def)

lemma valid_length_small: "valid s \<Longrightarrow> unat (al_length s) + 1 < 2305843009213693952"
  by (simp add: valid_def)

subsection \<open>init\<close>

lemma init_Inr:
  assumes "init A len = Inr s"
  shows "s = \<lparr>al_arr = replicate (unat len + 1) NULL, al_n = 0, al_length = len\<rparr>
         \<and> unat len + 1 < 2305843009213693952"
proof -
  from assms obtain f blk where blk: "calloc A (len + 1) sizeof_ptr = Some blk"
    and st: "store \<lparr>al_arr = blk, al_n = 0, al_length = len\<rparr> 0 NULL = Inr s"
    by (auto simp: init_def split: option.splits sum.splits prod.splits)
  from blk have nov: "unat (len + 1) * 8 < 18446744073709551616"
    and blk_eq: "blk = replicate (slots_of ((len + 1) * sizeof_ptr)) NULL"
    by (auto simp: calloc_def sizeof_ptr_def split: if_splits option.splits)
  from nov have small: "unat (len + 1) < 2305843009213693952" by simp
  then have sl: "slots_of ((len + 1) * sizeof_ptr) = unat (len + 1)"
    by (rule slots_of_bytes)
  from st have "0 < length blk" by (simp add: store_Inr)
  with blk_eq sl have pos: "0 < unat (len + 1)" by simp
  have m: "unat (len + 1) = (unat len + 1) mod 18446744073709551616"
    by (simp add: unat_word_ariths)
  have "unat len + 1 < 18446744073709551616"
  proof (rule ccontr)
    assume "\<not> ?thesis"
    with unat_lt64 [of len] have "unat len + 1 = 18446744073709551616" by linarith
    with m pos show False by simp
  qed
  then have u: "unat (len + 1) = unat len + 1" by (rule unat_plus1)
  from st blk_eq sl u have "s = \<lparr>al_arr = replicate (unat len + 1) NULL, al_n = 0, al_length = len\<rparr>"
    by (simp add: store_Inr)
  with small u show ?thesis by simp
qed

lemma init_valid: "init A len = Inr s \<Longrightarrow> valid s"
  by (drule init_Inr) (simp add: valid_def)

lemma init_ok:
  assumes "A sizeof_ArrayList \<noteq> None" "A ((len + 1) * sizeof_ptr) \<noteq> None"
      "unat len + 1 < 2305843009213693952"
  shows "init A len = Inr \<lparr>al_arr = replicate (unat len + 1) NULL, al_n = 0, al_length = len\<rparr>"
proof -
  have u: "unat (len + 1) = unat len + 1" using assms(3) by (simp add: unat_plus1)
  then have sl: "slots_of ((len + 1) * sizeof_ptr) = unat len + 1"
    using assms(3) by (simp add: slots_of_bytes)
  have "calloc A (len + 1) sizeof_ptr = Some (replicate (unat len + 1) NULL)"
    using assms u sl by (auto simp: calloc_def sizeof_ptr_def split: option.splits)
  then show ?thesis using assms(1)
    by (auto simp: init_def store_def split: option.splits)
qed

subsection \<open>resize\<close>

lemma resize_noop: "sz \<le> al_n s \<Longrightarrow> resize A s sz = Inr s"
  by (simp add: resize_def)

lemma resize_Inr:
  "resize A s sz = Inr s' \<Longrightarrow>
     (sz \<le> al_n s \<and> s' = s) \<or>
     (al_n s < sz \<and> (\<exists>new. realloc A (al_arr s) ((sz + 1) * sizeof_ptr) = Some new
        \<and> s' = s\<lparr>al_arr := new, al_length := sz\<rparr>))"
  by (auto simp: resize_def split: if_splits option.splits)

lemma resize_grow:
  assumes "valid s" "al_n s < sz" "unat sz + 1 < 2305843009213693952"
      "A ((sz + 1) * sizeof_ptr) \<noteq> None"
  shows "\<exists>s'. resize A s sz = Inr s' \<and> valid s' \<and> al_n s' = al_n s \<and> al_length s' = sz
           \<and> (\<forall>k \<le> unat (al_n s) + 1. take k (al_arr s') = take k (al_arr s))"
proof -
  from assms(4) obtain new where new: "realloc A (al_arr s) ((sz + 1) * sizeof_ptr) = Some new"
    by (cases "realloc A (al_arr s) ((sz + 1) * sizeof_ptr)") (auto simp: realloc_None)
  have u: "unat (sz + 1) = unat sz + 1" using assms(3) by (simp add: unat_plus1)
  have sl: "slots_of ((sz + 1) * sizeof_ptr) = unat sz + 1"
    using assms(3) u by (simp add: slots_of_bytes)
  have len: "length new = unat sz + 1" using new sl by (simp add: realloc_length)
  have lt: "unat (al_n s) < unat sz" using assms(2) by (simp add: word_less_nat_alt)
  let ?s' = "s\<lparr>al_arr := new, al_length := sz\<rparr>"
  have r: "resize A s sz = Inr ?s'"
    using assms(2) new by (simp add: resize_def not_le [symmetric])
  have v: "valid ?s'" using len lt assms(3) by (simp add: valid_def)
  have "take k new = take k (al_arr s)" if "k \<le> unat (al_n s) + 1" for k
    using new
  proof (rule realloc_take)
    show "k \<le> length (al_arr s)" using that assms(1) by (simp add: valid_def)
    show "k \<le> slots_of ((sz + 1) * sizeof_ptr)" using that lt sl by simp
  qed
  with r v show ?thesis by simp
qed

subsection \<open>shrink_to_fit\<close>

lemma shrink_noop: "al_n s = al_length s \<Longrightarrow> shrink_to_fit A s = Inr s"
  by (simp add: shrink_to_fit_def)

lemma shrink_Inr:
  "shrink_to_fit A s = Inr s' \<Longrightarrow>
     (al_n s = al_length s \<and> s' = s) \<or>
     (al_n s \<noteq> al_length s \<and> (\<exists>new. realloc A (al_arr s) ((al_n s + 1) * sizeof_ptr) = Some new
        \<and> s' = s\<lparr>al_arr := new, al_length := al_n s\<rparr>))"
  by (auto simp: shrink_to_fit_def split: if_splits option.splits)

lemma shrink_fit:
  assumes "valid s" "al_n s \<noteq> al_length s" "A ((al_n s + 1) * sizeof_ptr) \<noteq> None"
  shows "\<exists>s'. shrink_to_fit A s = Inr s' \<and> valid s' \<and> al_n s' = al_n s \<and> al_length s' = al_n s
           \<and> al_arr s' = take (unat (al_n s) + 1) (al_arr s)"
proof -
  from assms(3) obtain new where new: "realloc A (al_arr s) ((al_n s + 1) * sizeof_ptr) = Some new"
    by (cases "realloc A (al_arr s) ((al_n s + 1) * sizeof_ptr)") (auto simp: realloc_None)
  have small: "unat (al_n s) + 1 < 2305843009213693952" using assms(1) by (rule valid_n_small)
  have u: "unat (al_n s + 1) = unat (al_n s) + 1" using small by (simp add: unat_plus1)
  have sl: "slots_of ((al_n s + 1) * sizeof_ptr) = unat (al_n s) + 1"
    using small u by (simp add: slots_of_bytes)
  have len: "length new = unat (al_n s) + 1" using new sl by (simp add: realloc_length)
  let ?s' = "s\<lparr>al_arr := new, al_length := al_n s\<rparr>"
  have r: "shrink_to_fit A s = Inr ?s'"
    using assms(2) new by (simp add: shrink_to_fit_def)
  have v: "valid ?s'" using len small by (simp add: valid_def)
  have "take (unat (al_n s) + 1) new = take (unat (al_n s) + 1) (al_arr s)"
    using new
  proof (rule realloc_take)
    show "unat (al_n s) + 1 \<le> length (al_arr s)" using assms(1) by (simp add: valid_def)
    show "unat (al_n s) + 1 \<le> slots_of ((al_n s + 1) * sizeof_ptr)" using sl by simp
  qed
  with len have "new = take (unat (al_n s) + 1) (al_arr s)" by simp
  with r v show ?thesis by simp
qed

text \<open>
  Claim C8. On a well-formed container, and unless the allocator refuses the smaller block,
  \<^verbatim>\<open>shrink_to_fit\<close> returns with the capacity equal to the count, the count and the
  stored elements as before; when capacity and count are already equal it returns the
  container as it is; and a second call right after the first changes nothing, whatever
  the first call did.
\<close>

theorem shrink_to_fit_exact_idempotent:
  "(valid s \<and> (al_n s \<noteq> al_length s \<longrightarrow> A ((al_n s + 1) * sizeof_ptr) \<noteq> None) \<longrightarrow>
      (\<exists>s'. shrink_to_fit A s = Inr s' \<and> valid s' \<and> al_length s' = al_n s
            \<and> al_n s' = al_n s \<and> elements s' = elements s))
   \<and> (al_n s = al_length s \<longrightarrow> shrink_to_fit A s = Inr s)
   \<and> then_do (shrink_to_fit A s) (shrink_to_fit A') = shrink_to_fit A s"
proof (intro conjI impI)
  assume h: "valid s \<and> (al_n s \<noteq> al_length s \<longrightarrow> A ((al_n s + 1) * sizeof_ptr) \<noteq> None)"
  show "\<exists>s'. shrink_to_fit A s = Inr s' \<and> valid s' \<and> al_length s' = al_n s
            \<and> al_n s' = al_n s \<and> elements s' = elements s"
  proof (cases "al_n s = al_length s")
    case True
    with h show ?thesis by (simp add: shrink_noop)
  next
    case False
    with h obtain s' where "shrink_to_fit A s = Inr s'" "valid s'" "al_n s' = al_n s"
      "al_length s' = al_n s" "al_arr s' = take (unat (al_n s) + 1) (al_arr s)"
      using shrink_fit [of s A] by blast
    then show ?thesis by (simp add: elements_def)
  qed
next
  assume "al_n s = al_length s"
  then show "shrink_to_fit A s = Inr s" by (rule shrink_noop)
next
  show "then_do (shrink_to_fit A s) (shrink_to_fit A') = shrink_to_fit A s"
  proof (cases "shrink_to_fit A s")
    case (Inl e)
    then show ?thesis by (simp add: then_do_def)
  next
    case (Inr s')
    then have "al_n s' = al_length s'"
      by (auto dest!: shrink_Inr)
    with Inr show ?thesis by (simp add: then_do_def shrink_noop)
  qed
qed

theorem shrink_to_fit_exact_idempotent_witness:
  "valid \<lparr>al_arr = [7, 9, 0, 0, 0, 0], al_n = 2, al_length = 5\<rparr>
   \<and> (\<exists>s'. shrink_to_fit (\<lambda>b. Some (\<lambda>i. 5)) \<lparr>al_arr = [7, 9, 0, 0, 0, 0], al_n = 2, al_length = 5\<rparr> = Inr s'
          \<and> al_length s' = 2 \<and> al_n s' = 2 \<and> elements s' = [7, 9])"
proof -
  let ?s = "\<lparr>al_arr = [7, 9, 0, 0, 0, 0], al_n = 2, al_length = 5\<rparr>"
  let ?A = "\<lambda>b::size_t. Some (\<lambda>i::nat. 5::ptr)"
  have v: "valid ?s"
    by (simp add: valid_def)
  have e: "elements ?s = [7, 9]"
    by (simp add: elements_def)
  from v e shrink_to_fit_exact_idempotent [of ?s ?A] show ?thesis
    by auto
qed

subsection \<open>The growth step\<close>

lemma slots_of_bytes_mod: "slots_of (x * sizeof_ptr) = unat x mod 2305843009213693952"
proof -
  have "unat (x * sizeof_ptr) = (8 * unat x) mod (8 * 2305843009213693952)"
    by (simp add: unat_word_ariths sizeof_ptr_def mult.commute)
  also have "\<dots> = 8 * (unat x mod 2305843009213693952)"
    by (rule mult_mod_right [symmetric])
  finally show ?thesis
    by (simp add: slots_of_def)
qed

lemma valid_not_full:
  assumes "valid s" "al_n s \<noteq> al_length s"
  shows "unat (al_n s) < unat (al_length s)"
proof -
  from assms(2) have "unat (al_n s) \<noteq> unat (al_length s)"
    by (simp add: word_unat_eq_iff)
  with assms(1) show ?thesis
    by (simp add: valid_def)
qed

lemma grow_valid:
  assumes "valid s" "can_grow A s"
  shows "\<exists>s1. grow_step A s = Inr s1 \<and> valid s1 \<and> al_n s1 = al_n s
           \<and> unat (al_n s1) < unat (al_length s1)
           \<and> (\<forall>k \<le> unat (al_n s) + 1. take k (al_arr s1) = take k (al_arr s))
           \<and> (al_n s = al_length s \<longrightarrow> unat (al_length s1) = 2 * unat (al_length s) + 1)
           \<and> (al_n s \<noteq> al_length s \<longrightarrow> s1 = s)"
proof (cases "al_n s = al_length s")
  case False
  with assms(1) have "unat (al_n s) < unat (al_length s)"
    by (rule valid_not_full)
  with False assms(1) show ?thesis
    by (simp add: grow_step_def)
next
  case True
  let ?sz = "al_length s * 2 + 1"
  from True assms(2) have g: "A ((?sz + 1) * sizeof_ptr) \<noteq> None"
    and fit: "8 * (2 * unat (al_length s) + 2) < (2::nat) ^ 64"
    by (simp_all add: can_grow_def growth_request_def)
  from fit have L: "unat (al_length s) < 9223372036854775808" by simp
  then have u: "unat ?sz = 2 * unat (al_length s) + 1"
    by (rule unat_double_succ)
  with True have lt: "al_n s < ?sz"
    by (simp add: word_less_nat_alt)
  from u fit have small: "unat ?sz + 1 < 2305843009213693952"
    by simp
  from resize_grow [of s ?sz A] assms(1) lt small g obtain s1
    where "resize A s ?sz = Inr s1" "valid s1" "al_n s1 = al_n s" "al_length s1 = ?sz"
      "\<forall>k \<le> unat (al_n s) + 1. take k (al_arr s1) = take k (al_arr s)"
    by blast
  with True u show ?thesis
    by (auto simp: grow_step_def)
qed

lemma grow_Inr:
  "grow_step A s = Inr s1 \<Longrightarrow>
     (al_n s \<noteq> al_length s \<and> s1 = s) \<or>
     (al_n s = al_length s \<and> al_length s * 2 + 1 \<le> al_n s \<and> s1 = s) \<or>
     (al_n s = al_length s \<and> al_n s < al_length s * 2 + 1
        \<and> (\<exists>new. realloc A (al_arr s) (growth_request s) = Some new
               \<and> s1 = s\<lparr>al_arr := new, al_length := al_length s * 2 + 1\<rparr>))"
  by (auto simp: grow_step_def growth_request_def dest!: resize_Inr split: if_splits)

subsection \<open>push_back\<close>

lemma push_back_grow_step:
  "push_back A s element =
     then_do (grow_step A s) (\<lambda>s1.
     then_do (store s1 (al_n s1) element) (\<lambda>s2.
     let s3 = s2\<lparr>al_n := al_n s2 + 1\<rparr> in
     store s3 (al_n s3) NULL))"
  by (simp add: push_back_def grow_step_def)

lemma push_back_Inr:
  "push_back A s e = Inr s' \<longleftrightarrow>
     (\<exists>s1. grow_step A s = Inr s1 \<and> unat (al_n s1) < length (al_arr s1)
         \<and> unat (al_n s1 + 1) < length (al_arr s1)
         \<and> s' = s1\<lparr>al_arr := (al_arr s1)[unat (al_n s1) := e, unat (al_n s1 + 1) := NULL],
                   al_n := al_n s1 + 1\<rparr>)"
  by (auto simp: push_back_grow_step then_do_Inr store_Inr Let_def)

lemma take_Suc_update: "k < length xs \<Longrightarrow> take (Suc k) (xs[k := e]) = take k xs @ [e]"
  by (simp add: take_Suc_conv_app_nth)

lemma push_back_valid:
  assumes "valid s" "can_grow A s"
  shows "\<exists>s'. push_back A s e = Inr s' \<and> valid s'
           \<and> unat (al_n s') = unat (al_n s) + 1
           \<and> elements s' = elements s @ [e]
           \<and> al_arr s' ! unat (al_n s') = NULL
           \<and> (al_n s = al_length s \<longrightarrow> unat (al_length s') = 2 * unat (al_length s) + 1)
           \<and> (al_n s \<noteq> al_length s \<longrightarrow> al_length s' = al_length s)"
proof -
  from grow_valid [OF assms] obtain s1 where g: "grow_step A s = Inr s1" and v1: "valid s1"
    and n1: "al_n s1 = al_n s" and lt: "unat (al_n s1) < unat (al_length s1)"
    and tk: "\<forall>k \<le> unat (al_n s) + 1. take k (al_arr s1) = take k (al_arr s)"
    and cap: "al_n s = al_length s \<longrightarrow> unat (al_length s1) = 2 * unat (al_length s) + 1"
    and same: "al_n s \<noteq> al_length s \<longrightarrow> s1 = s"
    by blast
  from v1 have len: "length (al_arr s1) = unat (al_length s1) + 1"
    by (simp add: valid_def)
  from lt unat_lt64 [of "al_length s1"] have "unat (al_n s1) + 1 < 18446744073709551616"
    by linarith
  then have u: "unat (al_n s1 + 1) = unat (al_n s1) + 1"
    by (rule unat_plus1)
  let ?s' = "s1\<lparr>al_arr := (al_arr s1)[unat (al_n s1) := e, unat (al_n s1 + 1) := NULL],
                al_n := al_n s1 + 1\<rparr>"
  have r: "push_back A s e = Inr ?s'"
    using g lt len u by (simp add: push_back_Inr)
  have v: "valid ?s'"
    using v1 lt u by (simp add: valid_def)
  have "elements ?s' = take (unat (al_n s1)) (al_arr s1) @ [e]"
    using lt len u by (simp add: elements_def take_Suc_update)
  also have "take (unat (al_n s1)) (al_arr s1) = elements s"
    using tk n1 by (simp add: elements_def)
  finally have el: "elements ?s' = elements s @ [e]" .
  have z: "al_arr ?s' ! unat (al_n ?s') = NULL"
    using lt len u by simp
  from r v el z u n1 cap same show ?thesis
    by auto
qed

lemma mod_sub_once: "k \<le> m \<Longrightarrow> m < 2 * k \<Longrightarrow> m mod k = m - (k::nat)"
  by (simp add: le_mod_geq)

lemma growth_room:
  assumes "valid s" "al_n s = al_length s" "grow_step A s = Inr s1"
      "unat (al_n s1 + 1) < length (al_arr s1)"
  shows "can_grow A s"
proof -
  let ?L = "unat (al_length s)"
  from assms(1) have L: "?L + 1 < 2305843009213693952"
    by (rule valid_length_small)
  then have u: "unat (al_length s * 2 + 1) = 2 * ?L + 1"
    by (simp add: unat_double_succ)
  from assms(2) u have "\<not> al_length s * 2 + 1 \<le> al_n s"
    by (simp add: word_le_nat_alt)
  with grow_Inr [OF assms(3)] assms(2) obtain new
    where new: "realloc A (al_arr s) (growth_request s) = Some new"
      and s1: "s1 = s\<lparr>al_arr := new, al_length := al_length s * 2 + 1\<rparr>"
    by auto
  from new have granted: "A (growth_request s) \<noteq> None"
    by (auto simp: realloc_def split: option.splits)
  have u2: "unat (al_length s * 2 + 1 + 1) = 2 * ?L + 2"
  proof -
    have "unat (al_length s * 2 + 1) + 1 < 18446744073709551616"
      using u L by simp
    then have "unat (al_length s * 2 + 1 + 1) = unat (al_length s * 2 + 1) + 1"
      by (rule unat_plus1)
    with u show ?thesis
      by linarith
  qed
  have "length new = (2 * ?L + 2) mod 2305843009213693952"
    using new u2 by (simp add: realloc_length growth_request_def slots_of_bytes_mod)
  moreover have "unat (al_n s1 + 1) = ?L + 1"
    using s1 assms(2) L by (simp add: unat_plus1)
  ultimately have room: "?L + 1 < (2 * ?L + 2) mod 2305843009213693952"
    using assms(4) s1 by simp
  have "2 * ?L + 2 < 2305843009213693952"
  proof (rule ccontr)
    assume "\<not> ?thesis"
    then have "(2 * ?L + 2) mod 2305843009213693952 = 2 * ?L + 2 - 2305843009213693952"
      using L by (intro mod_sub_once) simp_all
    with room L show False by linarith
  qed
  with granted show ?thesis
    by (simp add: can_grow_def)
qed

lemma push_back_needs_growth:
  assumes "valid s" "push_back A s e = Inr s'"
  shows "can_grow A s"
proof (cases "al_n s = al_length s")
  case False
  then show ?thesis by (simp add: can_grow_def)
next
  case True
  from assms(2) obtain s1 where "grow_step A s = Inr s1"
    "unat (al_n s1 + 1) < length (al_arr s1)"
    by (auto simp: push_back_Inr)
  with assms(1) True show ?thesis
    by (rule growth_room)
qed

subsection \<open>pop_back\<close>

lemma pop_back_empty:
  "al_n s = 0 \<Longrightarrow> pop_back s = Inr (s, [''[ERROR] Empty list in function: pop_back''])"
  by (simp add: pop_back_def)

lemma pop_back_valid:
  assumes "valid s" "al_n s \<noteq> 0"
  shows "\<exists>s'. pop_back s = Inr (s', []) \<and> valid s'
           \<and> unat (al_n s') = unat (al_n s) - 1
           \<and> elements s' = butlast (elements s)
           \<and> al_arr s' ! unat (al_n s') = NULL
           \<and> al_length s' = al_length s"
proof -
  from assms(2) have u: "unat (al_n s - 1) = unat (al_n s) - 1"
    by (rule unat_minus_one)
  from assms(2) have pos: "0 < unat (al_n s)"
    by (simp add: unat_gt_0)
  from assms(1) have len: "length (al_arr s) = unat (al_length s) + 1"
    and le: "unat (al_n s) \<le> unat (al_length s)"
    by (simp_all add: valid_def)
  let ?s' = "s\<lparr>al_arr := (al_arr s)[unat (al_n s - 1) := NULL], al_n := al_n s - 1\<rparr>"
  have r: "pop_back s = Inr (?s', [])"
    using assms(2) u len le by (simp add: pop_back_def Let_def store_def then_do_def)
  have v: "valid ?s'"
    using assms(1) le len u by (simp add: valid_def)
  have "elements ?s' = take (unat (al_n s) - 1) (al_arr s)"
    using u by (simp add: elements_def)
  also have "\<dots> = butlast (elements s)"
    using le len by (simp add: elements_def butlast_take)
  finally have el: "elements ?s' = butlast (elements s)" .
  have z: "al_arr ?s' ! unat (al_n ?s') = NULL"
    using u len le pos by simp
  from r v el z u show ?thesis
    by auto
qed

text \<open>
  Claim C5. On a well-formed container that is not empty, \<^verbatim>\<open>pop_back\<close> returns without
  a message, the count one less, the stored elements those before without the last one,
  the capacity as it was. On an empty container it returns the container unchanged
  together with the one line it printed to \<^verbatim>\<open>stderr\<close>: the condition is reported and
  is not fatal.
\<close>

theorem pop_back_last_or_report:
  "(valid s \<and> al_n s \<noteq> 0 \<longrightarrow>
      (\<exists>s'. pop_back s = Inr (s', []) \<and> unat (al_n s') = unat (al_n s) - 1
            \<and> elements s' = butlast (elements s) \<and> al_length s' = al_length s))
   \<and> (al_n s = 0 \<longrightarrow> pop_back s = Inr (s, [''[ERROR] Empty list in function: pop_back'']))"
proof (intro conjI impI)
  assume "valid s \<and> al_n s \<noteq> 0"
  then have "valid s" "al_n s \<noteq> 0"
    by simp_all
  from pop_back_valid [OF this]
  show "\<exists>s'. pop_back s = Inr (s', []) \<and> unat (al_n s') = unat (al_n s) - 1
            \<and> elements s' = butlast (elements s) \<and> al_length s' = al_length s"
    by blast
next
  assume "al_n s = 0"
  then show "pop_back s = Inr (s, [''[ERROR] Empty list in function: pop_back''])"
    by (rule pop_back_empty)
qed

theorem pop_back_last_or_report_witness:
  "valid \<lparr>al_arr = [7, 9, 0], al_n = 2, al_length = 2\<rparr>
   \<and> (\<exists>s'. pop_back \<lparr>al_arr = [7, 9, 0], al_n = 2, al_length = 2\<rparr> = Inr (s', [])
          \<and> unat (al_n s') = 1 \<and> elements s' = [7])
   \<and> pop_back \<lparr>al_arr = [0, 0, 0], al_n = 0, al_length = 2\<rparr>
        = Inr (\<lparr>al_arr = [0, 0, 0], al_n = 0, al_length = 2\<rparr>,
               [''[ERROR] Empty list in function: pop_back''])"
proof -
  let ?s = "\<lparr>al_arr = [7, 9, 0], al_n = 2, al_length = 2\<rparr>"
  let ?e = "\<lparr>al_arr = [0, 0, 0], al_n = 0, al_length = 2\<rparr>"
  have v: "valid ?s"
    by (simp add: valid_def)
  have el: "butlast (elements ?s) = [7]"
    by (simp add: elements_def)
  from v el pop_back_last_or_report [of ?s] pop_back_last_or_report [of ?e] show ?thesis
    by auto
qed

text \<open>
  Claim C9. On a well-formed container, whenever \<^verbatim>\<open>push_back(x)\<close> returns, the
  \<^verbatim>\<open>pop_back()\<close> that follows returns without a message and the count and the stored
  elements are those before the \<^verbatim>\<open>push_back\<close>; and \<^verbatim>\<open>push_back\<close> does return when the
  container has a free slot or the allocator grants the growth request.
\<close>

theorem push_back_pop_back_roundtrip:
  "(valid s \<and> push_back A s x = Inr s1 \<longrightarrow>
      (\<exists>s2. pop_back s1 = Inr (s2, []) \<and> al_n s2 = al_n s \<and> elements s2 = elements s))
   \<and> (valid s \<and> can_grow A s \<longrightarrow> (\<exists>t. push_back A s x = Inr t))"
proof (intro conjI impI)
  assume h: "valid s \<and> push_back A s x = Inr s1"
  then have "can_grow A s"
    by (auto intro: push_back_needs_growth)
  with h push_back_valid [of s A x] have v1: "valid s1"
    and n1: "unat (al_n s1) = unat (al_n s) + 1"
    and e1: "elements s1 = elements s @ [x]"
    by auto
  from n1 have "al_n s1 \<noteq> 0"
    by auto
  from pop_back_valid [OF v1 this] obtain s2 where p: "pop_back s1 = Inr (s2, [])"
    and n2: "unat (al_n s2) = unat (al_n s1) - 1"
    and e2: "elements s2 = butlast (elements s1)"
    by blast
  from n1 n2 have "al_n s2 = al_n s"
    by (simp add: word_unat_eq_iff)
  with p e1 e2 show "\<exists>s2. pop_back s1 = Inr (s2, []) \<and> al_n s2 = al_n s \<and> elements s2 = elements s"
    by simp
next
  assume "valid s \<and> can_grow A s"
  with push_back_valid [of s A x] show "\<exists>t. push_back A s x = Inr t"
    by blast
qed

theorem push_back_pop_back_roundtrip_witness:
  "valid \<lparr>al_arr = [7, 9, 0], al_n = 2, al_length = 2\<rparr>
   \<and> can_grow (\<lambda>b. Some (\<lambda>i. 5)) \<lparr>al_arr = [7, 9, 0], al_n = 2, al_length = 2\<rparr>
   \<and> (\<exists>s1 s2. push_back (\<lambda>b. Some (\<lambda>i. 5)) \<lparr>al_arr = [7, 9, 0], al_n = 2, al_length = 2\<rparr> 4 = Inr s1
          \<and> pop_back s1 = Inr (s2, []) \<and> al_n s2 = 2 \<and> elements s2 = [7, 9])"
proof -
  let ?s = "\<lparr>al_arr = [7, 9, 0], al_n = 2, al_length = 2\<rparr>"
  let ?A = "\<lambda>b::size_t. Some (\<lambda>i::nat. 5::ptr)"
  have v: "valid ?s"
    by (simp add: valid_def)
  have g: "can_grow ?A ?s"
    by (simp add: can_grow_def)
  have el: "elements ?s = [7, 9]"
    by (simp add: elements_def)
  from v g push_back_pop_back_roundtrip [of ?s ?A 4] obtain t
    where t: "push_back ?A ?s 4 = Inr t"
    by blast
  with v el push_back_pop_back_roundtrip [of ?s ?A 4 t] have
    "\<exists>s2. pop_back t = Inr (s2, []) \<and> al_n s2 = 2 \<and> elements s2 = [7, 9]"
    by simp
  with v g t show ?thesis
    by blast
qed

subsection \<open>insert_at\<close>

lemma insert_at_range: "al_n s < i \<Longrightarrow> insert_at A s e i = Inl (IndexOutOfRange, s)"
  by (simp add: insert_at_def)

lemma insert_at_grow_step:
  "i \<le> al_n s \<Longrightarrow> insert_at A s e i =
     then_do (grow_step A s) (\<lambda>s1.
     then_do (memmove s1 (i + 1) i ((al_n s1 - i) * sizeof_ptr)) (\<lambda>s2.
     then_do (store s2 i e) (\<lambda>s3.
     let s4 = s3\<lparr>al_n := al_n s3 + 1\<rparr> in
     store s4 (al_n s4) NULL)))"
  by (simp add: insert_at_def grow_step_def not_less [symmetric])

lemma shift_right_list:
  assumes "I \<le> N" "N + 1 < length blk"
  shows "take (N + 1) ((take (I + 1) blk @ take (N - I) (drop I blk) @ drop (I + 1 + (N - I)) blk)
             [I := e, N + 1 := z])
         = take I (take N blk) @ e # drop I (take N blk)"
proof -
  have a: "take (Suc I) blk = take I blk @ [blk ! I]"
    using assms by (simp add: take_Suc_conv_app_nth)
  have "(take (I + 1) blk @ take (N - I) (drop I blk) @ drop (I + 1 + (N - I)) blk)[I := e]
        = take I blk @ [e] @ take (N - I) (drop I blk) @ drop (I + 1 + (N - I)) blk"
    using assms by (simp add: a list_update_append)
  moreover have "take (N + 1) (take I blk @ [e] @ take (N - I) (drop I blk) @ drop (I + 1 + (N - I)) blk)
        = take I blk @ [e] @ take (N - I) (drop I blk)"
    using assms by (simp add: Suc_diff_le)
  moreover have "take I (take N blk) = take I blk"
    using assms by (simp add: min_def)
  moreover have "drop I (take N blk) = take (N - I) (drop I blk)"
    by (simp add: drop_take)
  ultimately show ?thesis
    by (simp add: take_update_cancel del: append_Cons append_Nil)
qed

lemma insert_at_valid:
  assumes "valid s" "can_grow A s" "i \<le> al_n s"
  shows "\<exists>s'. insert_at A s e i = Inr s' \<and> valid s'
           \<and> unat (al_n s') = unat (al_n s) + 1
           \<and> elements s' = take (unat i) (elements s) @ e # drop (unat i) (elements s)
           \<and> al_arr s' ! unat (al_n s') = NULL
           \<and> (al_n s = al_length s \<longrightarrow> unat (al_length s') = 2 * unat (al_length s) + 1)
           \<and> (al_n s \<noteq> al_length s \<longrightarrow> al_length s' = al_length s)"
proof -
  from grow_valid [OF assms(1,2)] obtain s1 where g: "grow_step A s = Inr s1" and v1: "valid s1"
    and n1: "al_n s1 = al_n s" and lt: "unat (al_n s1) < unat (al_length s1)"
    and tk: "\<forall>k \<le> unat (al_n s) + 1. take k (al_arr s1) = take k (al_arr s)"
    and cap: "al_n s = al_length s \<longrightarrow> unat (al_length s1) = 2 * unat (al_length s) + 1"
    and same: "al_n s \<noteq> al_length s \<longrightarrow> s1 = s"
    by blast
  let ?N = "unat (al_n s)" and ?I = "unat i" and ?blk = "al_arr s1"
  from v1 have len: "length ?blk = unat (al_length s1) + 1"
    by (simp add: valid_def)
  from assms(3) have IN: "?I \<le> ?N"
    by (simp add: word_le_nat_alt)
  from v1 n1 have Nsmall: "?N + 1 < 2305843009213693952"
    using valid_n_small [of s1] by simp
  have uN: "unat (al_n s + 1) = ?N + 1"
    using Nsmall by (simp add: unat_plus1)
  have uI: "unat (i + 1) = ?I + 1"
    using Nsmall IN by (simp add: unat_plus1)
  have ud: "unat (al_n s - i) = ?N - ?I"
    using assms(3) by (rule unat_sub)
  have k: "slots_of ((al_n s - i) * sizeof_ptr) = ?N - ?I"
    using ud Nsmall by (simp add: slots_of_bytes)
  have room: "?N + 1 < length ?blk"
    using lt len n1 by simp
  let ?blk2 = "take (?I + 1) ?blk @ take (?N - ?I) (drop ?I ?blk) @ drop (?I + 1 + (?N - ?I)) ?blk"
  have len2: "length ?blk2 = length ?blk"
    using IN room by simp
  have mm: "memmove s1 (i + 1) i ((al_n s1 - i) * sizeof_ptr) = Inr (s1\<lparr>al_arr := ?blk2\<rparr>)"
    using IN room by (simp add: memmove_def Let_def n1 k uI)
  let ?s' = "s1\<lparr>al_arr := ?blk2[?I := e, ?N + 1 := NULL], al_n := al_n s + 1\<rparr>"
  have r: "insert_at A s e i = Inr ?s'"
    using assms(3) g mm IN room len2
    by (simp add: insert_at_grow_step then_do_simps store_def Let_def n1 uN del: length_append)
  have v: "valid ?s'"
    using v1 lt n1 uN len2 by (simp add: valid_def del: length_append)
  have "elements ?s' = take (?N + 1) (?blk2[?I := e, ?N + 1 := NULL])"
    by (simp add: elements_def uN)
  also have "\<dots> = take ?I (take ?N ?blk) @ e # drop ?I (take ?N ?blk)"
    using IN room by (rule shift_right_list)
  also have "take ?N ?blk = elements s"
    using tk by (simp add: elements_def)
  finally have el: "elements ?s' = take ?I (elements s) @ e # drop ?I (elements s)" .
  have z: "al_arr ?s' ! unat (al_n ?s') = NULL"
    using room len2 by (simp add: uN del: length_append)
  have n': "unat (al_n ?s') = ?N + 1"
    by (simp add: uN)
  from r v el z n' cap same show ?thesis
    by (intro exI [of _ ?s']) auto
qed

lemma memmove_Inr:
  "memmove s d src b = Inr s' \<Longrightarrow>
     length (al_arr s') = length (al_arr s) \<and> al_n s' = al_n s \<and> al_length s' = al_length s"
  by (auto simp: memmove_def Let_def split: if_splits)

lemma insert_at_Inr:
  assumes "insert_at A s e i = Inr s'"
  shows "i \<le> al_n s \<and> (\<exists>s1. grow_step A s = Inr s1 \<and> unat (al_n s1 + 1) < length (al_arr s1)
           \<and> al_n s' = al_n s1 + 1 \<and> al_length s' = al_length s1
           \<and> length (al_arr s') = length (al_arr s1))"
proof -
  from assms have le: "i \<le> al_n s"
    by (auto simp: insert_at_def split: if_splits)
  with assms obtain s1 s2 where g: "grow_step A s = Inr s1"
    and mm: "memmove s1 (i + 1) i ((al_n s1 - i) * sizeof_ptr) = Inr s2"
    and st: "unat i < length (al_arr s2)" "unat (al_n s2 + 1) < length (al_arr s2)"
    and s': "s' = s2\<lparr>al_arr := (al_arr s2)[unat i := e, unat (al_n s2 + 1) := NULL],
                      al_n := al_n s2 + 1\<rparr>"
    by (auto simp: insert_at_grow_step then_do_Inr store_Inr Let_def)
  from memmove_Inr [OF mm] g st s' le show ?thesis
    by auto
qed

lemma insert_at_needs_growth:
  assumes "valid s" "insert_at A s e i = Inr s'"
  shows "can_grow A s"
proof (cases "al_n s = al_length s")
  case False
  then show ?thesis by (simp add: can_grow_def)
next
  case True
  from insert_at_Inr [OF assms(2)] obtain s1 where "grow_step A s = Inr s1"
    "unat (al_n s1 + 1) < length (al_arr s1)"
    by blast
  with assms(1) True show ?thesis
    by (rule growth_room)
qed

lemma push_back_out_of_memory:
  assumes "al_n s = al_length s" "al_n s < al_length s * 2 + 1" "A (growth_request s) = None"
  shows "push_back A s e = Inl (OutOfMemory, s)"
  using assms
  by (simp add: push_back_def resize_def realloc_def growth_request_def then_do_def
        not_le [symmetric] del: not_le)

lemma push_back_total:
  assumes "valid s" "8 * length (al_arr s) < 9223372036854775808"
  shows "push_back A s e = Inl (OutOfMemory, s) \<or> (\<exists>t. push_back A s e = Inr t \<and> valid t)"
proof (cases "can_grow A s")
  case True
  with assms(1) push_back_valid [of s A e] show ?thesis
    by blast
next
  case False
  from assms have L: "unat (al_length s) + 1 < 1152921504606846976"
    by (simp add: valid_def)
  with False have full: "al_n s = al_length s" and none: "A (growth_request s) = None"
    by (auto simp: can_grow_def)
  from L have "unat (al_length s * 2 + 1) = 2 * unat (al_length s) + 1"
    by (simp add: unat_double_succ)
  with full have "al_n s < al_length s * 2 + 1"
    by (simp add: word_less_nat_alt)
  with full none show ?thesis
    by (simp add: push_back_out_of_memory)
qed

lemma run_push_backs:
  assumes "\<forall>b. A b \<noteq> None"
  shows "valid s \<Longrightarrow> unat (al_n s) + length es < 1152921504606846976 \<Longrightarrow>
          \<exists>t. run s (map (Push_back A) es) = Inr t \<and> valid t \<and> elements t = elements s @ es"
proof (induction es arbitrary: s)
  case Nil
  then show ?case by simp
next
  case (Cons e es)
  have "can_grow A s"
  proof (cases "al_n s = al_length s")
    case True
    with Cons.prems(2) have "unat (al_length s) < 1152921504606846975"
      by simp
    with assms show ?thesis
      by (simp add: can_grow_def)
  next
    case False
    then show ?thesis
      by (simp add: can_grow_def)
  qed
  from push_back_valid [OF Cons.prems(1) this, of e] obtain s' where p: "push_back A s e = Inr s'"
    and v: "valid s'" and n: "unat (al_n s') = unat (al_n s) + 1"
    and el: "elements s' = elements s @ [e]"
    by blast
  from n Cons.prems(2) have "unat (al_n s') + length es < 1152921504606846976"
    by simp
  from Cons.IH [OF v this] obtain t where "run s' (map (Push_back A) es) = Inr t" "valid t"
    "elements t = elements s' @ es"
    by blast
  with p el show ?case
    by (simp add: then_do_simps)
qed

text \<open>
  Claim C3. On a well-formed container, with an index of at most the count, and unless a
  full container cannot grow, \<^verbatim>\<open>insert_at\<close> returns with the count one more and, as
  stored elements, those that were before the index, the new element, and those that
  were at the index and after it, in their order; with the index equal to the count the
  element is appended. With an index greater than the count the call ends with
  \<^verbatim>\<open>Index out of range\<close> on any container, which at that moment is as it was at the call.
\<close>

theorem insert_at_shifts_or_rejects:
  "(valid s \<and> can_grow A s \<and> i \<le> al_n s \<longrightarrow>
      (\<exists>s'. insert_at A s e i = Inr s' \<and> valid s' \<and> unat (al_n s') = unat (al_n s) + 1
            \<and> elements s' = take (unat i) (elements s) @ e # drop (unat i) (elements s)))
   \<and> (valid s \<and> can_grow A s \<and> i = al_n s \<longrightarrow>
      (\<exists>s'. insert_at A s e i = Inr s' \<and> elements s' = elements s @ [e]))
   \<and> (al_n s < i \<longrightarrow> insert_at A s e i = Inl (IndexOutOfRange, s))"
proof (intro conjI impI)
  assume "valid s \<and> can_grow A s \<and> i \<le> al_n s"
  then have "valid s" "can_grow A s" "i \<le> al_n s"
    by simp_all
  from insert_at_valid [OF this, of e]
  show "\<exists>s'. insert_at A s e i = Inr s' \<and> valid s' \<and> unat (al_n s') = unat (al_n s) + 1
            \<and> elements s' = take (unat i) (elements s) @ e # drop (unat i) (elements s)"
    by blast
next
  assume h: "valid s \<and> can_grow A s \<and> i = al_n s"
  then have "valid s" "can_grow A s" "i \<le> al_n s"
    by simp_all
  from insert_at_valid [OF this, of e] obtain s' where "insert_at A s e i = Inr s'"
    "elements s' = take (unat i) (elements s) @ e # drop (unat i) (elements s)"
    by blast
  moreover from h have "length (elements s) \<le> unat i"
    by (simp add: elements_def)
  ultimately show "\<exists>s'. insert_at A s e i = Inr s' \<and> elements s' = elements s @ [e]"
    by simp
next
  assume "al_n s < i"
  then show "insert_at A s e i = Inl (IndexOutOfRange, s)"
    by (rule insert_at_range)
qed

theorem insert_at_shifts_or_rejects_witness:
  "valid \<lparr>al_arr = [7, 9, 0], al_n = 2, al_length = 2\<rparr>
   \<and> can_grow (\<lambda>b. Some (\<lambda>i. 5)) \<lparr>al_arr = [7, 9, 0], al_n = 2, al_length = 2\<rparr>
   \<and> (\<exists>s'. insert_at (\<lambda>b. Some (\<lambda>i. 5)) \<lparr>al_arr = [7, 9, 0], al_n = 2, al_length = 2\<rparr> 4 1 = Inr s'
          \<and> unat (al_n s') = 3 \<and> elements s' = [7, 4, 9])
   \<and> (\<exists>s'. insert_at (\<lambda>b. Some (\<lambda>i. 5)) \<lparr>al_arr = [7, 9, 0], al_n = 2, al_length = 2\<rparr> 4 2 = Inr s'
          \<and> elements s' = [7, 9, 4])
   \<and> insert_at (\<lambda>b. Some (\<lambda>i. 5)) \<lparr>al_arr = [7, 9, 0], al_n = 2, al_length = 2\<rparr> 4 3
        = Inl (IndexOutOfRange, \<lparr>al_arr = [7, 9, 0], al_n = 2, al_length = 2\<rparr>)"
proof -
  let ?s = "\<lparr>al_arr = [7, 9, 0], al_n = 2, al_length = 2\<rparr>"
  let ?A = "\<lambda>b::size_t. Some (\<lambda>i::nat. 5::ptr)"
  have v: "valid ?s"
    by (simp add: valid_def)
  have g: "can_grow ?A ?s"
    by (simp add: can_grow_def)
  have el: "elements ?s = [7, 9]"
    by (simp add: elements_def)
  from v g el insert_at_shifts_or_rejects [of ?s ?A 1 4]
    insert_at_shifts_or_rejects [of ?s ?A 2 4] insert_at_shifts_or_rejects [of ?s ?A 3 4]
  show ?thesis
    by auto
qed

text \<open>
  Claim C2. On a well-formed container that is full, whenever \<^verbatim>\<open>push_back\<close> or
  \<^verbatim>\<open>insert_at\<close> returns, the capacity is exactly twice the old capacity plus one, so
  strictly larger, and the element is stored; \<^verbatim>\<open>push_back\<close> does return when the
  container has a free slot or the allocator grants the growth request. On a container
  whose block is smaller than \<open>2 ^ 63\<close> bytes (no larger object exists in C),
  \<^verbatim>\<open>push_back\<close> either returns or ends with \<^verbatim>\<open>out of memory\<close>, the container as it
  was: it never runs out of slots. Starting from \<^verbatim>\<open>init(0)\<close>, with an allocator that
  never refuses, every \<^verbatim>\<open>push_back\<close> of a run of fewer than \<open>2 ^ 60\<close> calls returns, and
  the stored elements are those pushed, in order.
\<close>

theorem growth_policy:
  "(valid s \<and> al_n s = al_length s \<and> push_back A s e = Inr s' \<longrightarrow>
      unat (al_length s') = 2 * unat (al_length s) + 1 \<and> al_length s < al_length s'
      \<and> elements s' = elements s @ [e])
   \<and> (valid s \<and> al_n s = al_length s \<and> insert_at A s e i = Inr s' \<longrightarrow>
      unat (al_length s') = 2 * unat (al_length s) + 1 \<and> al_length s < al_length s'
      \<and> elements s' = take (unat i) (elements s) @ e # drop (unat i) (elements s))
   \<and> (valid s \<and> can_grow A s \<longrightarrow> (\<exists>t. push_back A s e = Inr t \<and> valid t))
   \<and> (valid s \<and> 8 * length (al_arr s) < 2 ^ 63 \<longrightarrow>
      push_back A s e = Inl (OutOfMemory, s) \<or> (\<exists>t. push_back A s e = Inr t \<and> valid t))
   \<and> ((\<forall>b. A b \<noteq> None) \<and> length es < 2 ^ 60 \<longrightarrow>
      (\<exists>s0 t. init A 0 = Inr s0 \<and> run s0 (map (Push_back A) es) = Inr t
             \<and> elements t = es \<and> valid t))"
proof (intro conjI impI)
  assume h: "valid s \<and> al_n s = al_length s \<and> push_back A s e = Inr s'"
  then have "can_grow A s"
    by (auto intro: push_back_needs_growth)
  with h push_back_valid [of s A e]
  show "unat (al_length s') = 2 * unat (al_length s) + 1"
    and "al_length s < al_length s'" and "elements s' = elements s @ [e]"
    by (auto simp: word_less_nat_alt)
next
  assume h: "valid s \<and> al_n s = al_length s \<and> insert_at A s e i = Inr s'"
  then have "can_grow A s"
    by (auto intro: insert_at_needs_growth)
  moreover from h have "i \<le> al_n s"
    by (auto dest: insert_at_Inr)
  ultimately show "unat (al_length s') = 2 * unat (al_length s) + 1"
    and "al_length s < al_length s'"
    and "elements s' = take (unat i) (elements s) @ e # drop (unat i) (elements s)"
    using h insert_at_valid [of s A i e] by (auto simp: word_less_nat_alt)
next
  assume "valid s \<and> can_grow A s"
  with push_back_valid [of s A e] show "\<exists>t. push_back A s e = Inr t \<and> valid t"
    by blast
next
  assume "valid s \<and> 8 * length (al_arr s) < 2 ^ 63"
  then have "valid s" "8 * length (al_arr s) < 9223372036854775808"
    by simp_all
  then show "push_back A s e = Inl (OutOfMemory, s) \<or> (\<exists>t. push_back A s e = Inr t \<and> valid t)"
    by (rule push_back_total)
next
  assume h: "(\<forall>b. A b \<noteq> None) \<and> length es < 2 ^ 60"
  let ?s0 = "\<lparr>al_arr = replicate (unat (0::size_t) + 1) NULL, al_n = 0, al_length = 0\<rparr>"
  from h have i: "init A 0 = Inr ?s0"
    by (intro init_ok) simp_all
  then have v: "valid ?s0"
    by (rule init_valid)
  from h have "\<forall>b. A b \<noteq> None" and "unat (al_n ?s0) + length es < 1152921504606846976"
    by simp_all
  from run_push_backs [OF this(1) v this(2)] i
  show "\<exists>s0 t. init A 0 = Inr s0 \<and> run s0 (map (Push_back A) es) = Inr t
             \<and> elements t = es \<and> valid t"
    by (auto simp: elements_def)
qed

theorem growth_policy_witness:
  "valid \<lparr>al_arr = [7, 9, 0], al_n = 2, al_length = 2\<rparr>
   \<and> can_grow (\<lambda>b. Some (\<lambda>i. 5)) \<lparr>al_arr = [7, 9, 0], al_n = 2, al_length = 2\<rparr>
   \<and> (\<exists>s'. push_back (\<lambda>b. Some (\<lambda>i. 5)) \<lparr>al_arr = [7, 9, 0], al_n = 2, al_length = 2\<rparr> 4 = Inr s'
          \<and> unat (al_length s') = 5 \<and> elements s' = [7, 9, 4])
   \<and> (\<exists>s'. insert_at (\<lambda>b. Some (\<lambda>i. 5)) \<lparr>al_arr = [7, 9, 0], al_n = 2, al_length = 2\<rparr> 4 1 = Inr s'
          \<and> unat (al_length s') = 5 \<and> elements s' = [7, 4, 9])
   \<and> push_back (\<lambda>b. None) \<lparr>al_arr = [7, 9, 0], al_n = 2, al_length = 2\<rparr> 4
        = Inl (OutOfMemory, \<lparr>al_arr = [7, 9, 0], al_n = 2, al_length = 2\<rparr>)
   \<and> (\<exists>s0 t. init (\<lambda>b. Some (\<lambda>i. 5)) 0 = Inr s0
          \<and> run s0 (map (Push_back (\<lambda>b. Some (\<lambda>i. 5))) [1, 2, 3]) = Inr t
          \<and> elements t = [1, 2, 3])"
proof -
  let ?s = "\<lparr>al_arr = [7, 9, 0], al_n = 2, al_length = 2\<rparr>"
  let ?A = "\<lambda>b::size_t. Some (\<lambda>i::nat. 5::ptr)"
  have v: "valid ?s"
    by (simp add: valid_def)
  have g: "can_grow ?A ?s"
    by (simp add: can_grow_def)
  have el: "elements ?s = [7, 9]"
    by (simp add: elements_def)
  from v g growth_policy [of ?s ?A 4] obtain t where t: "push_back ?A ?s 4 = Inr t"
    by blast
  with v el growth_policy [of ?s ?A 4 t]
  have 1: "\<exists>s'. push_back ?A ?s 4 = Inr s' \<and> unat (al_length s') = 5 \<and> elements s' = [7, 9, 4]"
    by simp
  from insert_at_valid [OF v g, of 1 4] obtain u where u: "insert_at ?A ?s 4 1 = Inr u"
    by auto
  with v el growth_policy [of ?s ?A 4 u 1]
  have 2: "\<exists>s'. insert_at ?A ?s 4 1 = Inr s' \<and> unat (al_length s') = 5 \<and> elements s' = [7, 4, 9]"
    by simp
  have "(\<forall>b. ?A b \<noteq> None) \<and> length [1, 2, 3 :: ptr] < 2 ^ 60"
    by simp
  with growth_policy [of ?s ?A 4 t 1 "[1, 2, 3]"]
  have 3: "\<exists>s0 t. init ?A 0 = Inr s0 \<and> run s0 (map (Push_back ?A) [1, 2, 3]) = Inr t
          \<and> elements t = [1, 2, 3]"
    by blast
  have "\<forall>t. push_back (\<lambda>b. None) ?s 4 \<noteq> Inr t"
    by (simp add: push_back_def resize_def realloc_def then_do_def)
  with v growth_policy [of ?s "\<lambda>b. None" 4]
  have 4: "push_back (\<lambda>b. None) ?s 4 = Inl (OutOfMemory, ?s)"
    by simp
  from v g 1 2 3 4 show ?thesis
    by blast
qed

subsection \<open>remove_at\<close>

lemma remove_at_range: "al_n s \<le> i \<Longrightarrow> remove_at s i = Inl (IndexOutOfRange, s)"
  by (simp add: remove_at_def)

lemma shift_left_step:
  assumes "I + 1 < N" "N \<le> length blk"
  shows "take (I + 1) (blk[I := blk ! (I + 1)])
           @ take (N - 1 - (I + 1)) (drop (I + 1 + 1) (blk[I := blk ! (I + 1)]))
           @ drop (N - 1) (blk[I := blk ! (I + 1)])
         = take I blk @ take (N - 1 - I) (drop (I + 1) blk) @ drop (N - 1) blk"
proof -
  have a: "take (Suc I) (blk[I := blk ! Suc I]) = take I blk @ [blk ! Suc I]"
    using assms by (simp add: take_Suc_conv_app_nth)
  have b: "drop (Suc (Suc I)) (blk[I := blk ! Suc I]) = drop (Suc (Suc I)) blk"
    by simp
  have c: "drop (N - 1) (blk[I := blk ! Suc I]) = drop (N - 1) blk"
    using assms by simp
  have d: "drop (Suc I) blk = blk ! Suc I # drop (Suc (Suc I)) blk"
    using assms by (simp add: Cons_nth_drop_Suc)
  have e: "N - 1 - I = Suc (N - 1 - Suc I)"
    using assms by simp
  have "take (N - 1 - I) (drop (Suc I) blk) = blk ! Suc I # take (N - 1 - Suc I) (drop (Suc (Suc I)) blk)"
    by (subst e, subst d) simp
  with a b c show ?thesis
    by simp
qed

lemma remove_loop_shift:
  "unat (al_n s) \<le> length (al_arr s) \<Longrightarrow> al_n s \<noteq> 0 \<Longrightarrow> i \<le> al_n s - 1 \<Longrightarrow>
   remove_loop s i =
     Inr (s\<lparr>al_arr := take (unat i) (al_arr s)
                        @ take (unat (al_n s) - 1 - unat i) (drop (unat i + 1) (al_arr s))
                        @ drop (unat (al_n s) - 1) (al_arr s)\<rparr>)"
proof (induction s i rule: remove_loop.induct)
  case (1 s i)
  let ?N = "unat (al_n s)" and ?I = "unat i" and ?blk = "al_arr s"
  from "1.prems"(2) have uN: "unat (al_n s - 1) = ?N - 1"
    by (rule unat_minus_one)
  show ?case
  proof (cases "i < al_n s - 1")
    case True
    then have lt: "?I + 1 < ?N"
      using uN by (simp add: word_less_nat_alt)
    from True have uI: "unat (i + 1) = ?I + 1"
      by (rule unat_succ_less)
    let ?s' = "s\<lparr>al_arr := ?blk[?I := ?blk ! unat (i + 1)]\<rparr>"
    have inb: "unat (i + 1) < length ?blk \<and> ?I < length ?blk"
      using lt uI "1.prems"(1) by simp
    have step: "remove_loop s i = remove_loop ?s' (i + 1)"
      using True inb by (subst remove_loop.simps) simp
    have p1: "unat (al_n ?s') \<le> length (al_arr ?s')"
      using "1.prems"(1) by simp
    have p2: "al_n ?s' \<noteq> 0"
      using "1.prems"(2) by simp
    have p3: "i + 1 \<le> al_n ?s' - 1"
      using lt uI uN by (simp add: word_le_nat_alt)
    have "remove_loop ?s' (i + 1) =
        Inr (?s'\<lparr>al_arr := take (unat (i + 1)) (al_arr ?s')
                        @ take (unat (al_n ?s') - 1 - unat (i + 1)) (drop (unat (i + 1) + 1) (al_arr ?s'))
                        @ drop (unat (al_n ?s') - 1) (al_arr ?s')\<rparr>)"
      using True inb p1 p2 p3 by (rule "1.IH")
    also have "\<dots> = Inr (s\<lparr>al_arr := take ?I ?blk @ take (?N - 1 - ?I) (drop (?I + 1) ?blk)
                        @ drop (?N - 1) ?blk\<rparr>)"
      using shift_left_step [OF lt "1.prems"(1)] by (simp add: uI)
    finally show ?thesis
      using step by simp
  next
    case False
    with "1.prems"(3) have "i = al_n s - 1"
      by simp
    then have "?I = ?N - 1"
      using uN by simp
    with False show ?thesis
      by (subst remove_loop.simps) simp
  qed
qed

lemma remove_at_valid:
  assumes "valid s" "i < al_n s"
  shows "\<exists>s'. remove_at s i = Inr s' \<and> valid s'
           \<and> unat (al_n s') = unat (al_n s) - 1
           \<and> elements s' = take (unat i) (elements s) @ drop (unat i + 1) (elements s)
           \<and> al_arr s' ! unat (al_n s') = NULL
           \<and> al_length s' = al_length s"
proof -
  let ?N = "unat (al_n s)" and ?I = "unat i" and ?blk = "al_arr s"
  from assms(2) have IN: "?I < ?N"
    by (simp add: word_less_nat_alt)
  then have nz: "al_n s \<noteq> 0"
    by auto
  then have uN: "unat (al_n s - 1) = ?N - 1"
    by (rule unat_minus_one)
  from assms(1) have len: "length ?blk = unat (al_length s) + 1" and le: "?N \<le> unat (al_length s)"
    by (simp_all add: valid_def)
  have le1: "i \<le> al_n s - 1"
    using IN uN by (simp add: word_le_nat_alt)
  let ?blk1 = "take ?I ?blk @ take (?N - 1 - ?I) (drop (?I + 1) ?blk) @ drop (?N - 1) ?blk"
  have loop: "remove_loop s i = Inr (s\<lparr>al_arr := ?blk1\<rparr>)"
    using len le nz le1 by (intro remove_loop_shift) simp_all
  have len1: "length ?blk1 = length ?blk"
    using IN len le by simp
  let ?s' = "s\<lparr>al_arr := ?blk1[?N - 1 := NULL], al_n := al_n s - 1\<rparr>"
  have r: "remove_at s i = Inr ?s'"
    using assms(2) loop len1 len le IN
    by (simp add: remove_at_def not_le [symmetric] then_do_simps Let_def store_def uN
          del: length_append)
  have v: "valid ?s'"
    using assms(1) len1 le uN by (simp add: valid_def del: length_append)
  have "elements ?s' = take (?N - 1) ?blk1"
    by (simp add: elements_def uN del: append_assoc)
  also have "\<dots> = take ?I ?blk @ take (?N - 1 - ?I) (drop (?I + 1) ?blk)"
    using IN len le by simp
  also have "\<dots> = take ?I (elements s) @ drop (?I + 1) (elements s)"
    using IN by (simp add: elements_def drop_take min_def)
  finally have el: "elements ?s' = take ?I (elements s) @ drop (?I + 1) (elements s)" .
  have z: "al_arr ?s' ! unat (al_n ?s') = NULL"
    using len1 len le IN by (simp add: uN del: length_append)
  have n': "unat (al_n ?s') = ?N - 1"
    by (simp add: uN)
  from r v el z n' show ?thesis
    by (intro exI [of _ ?s']) simp
qed

text \<open>
  Claim C4. On a well-formed container, with an index below the count, \<^verbatim>\<open>remove_at\<close>
  returns with the count one less, the capacity as it was, and, as stored elements,
  those that were before the index followed by those that were after it, in their
  order. With an index of at least the count the call ends with \<^verbatim>\<open>Index out of range\<close>
  on any container, which at that moment is as it was at the call.
\<close>

theorem remove_at_shifts_or_rejects:
  "(valid s \<and> i < al_n s \<longrightarrow>
      (\<exists>s'. remove_at s i = Inr s' \<and> valid s' \<and> unat (al_n s') = unat (al_n s) - 1
            \<and> elements s' = take (unat i) (elements s) @ drop (unat i + 1) (elements s)
            \<and> al_length s' = al_length s))
   \<and> (al_n s \<le> i \<longrightarrow> remove_at s i = Inl (IndexOutOfRange, s))"
proof (intro conjI impI)
  assume "valid s \<and> i < al_n s"
  then have "valid s" "i < al_n s"
    by simp_all
  from remove_at_valid [OF this]
  show "\<exists>s'. remove_at s i = Inr s' \<and> valid s' \<and> unat (al_n s') = unat (al_n s) - 1
            \<and> elements s' = take (unat i) (elements s) @ drop (unat i + 1) (elements s)
            \<and> al_length s' = al_length s"
    by blast
next
  assume "al_n s \<le> i"
  then show "remove_at s i = Inl (IndexOutOfRange, s)"
    by (rule remove_at_range)
qed

theorem remove_at_shifts_or_rejects_witness:
  "valid \<lparr>al_arr = [7, 9, 4, 0], al_n = 3, al_length = 3\<rparr>
   \<and> (\<exists>s'. remove_at \<lparr>al_arr = [7, 9, 4, 0], al_n = 3, al_length = 3\<rparr> 0 = Inr s'
          \<and> unat (al_n s') = 2 \<and> elements s' = [9, 4] \<and> al_length s' = 3)
   \<and> remove_at \<lparr>al_arr = [7, 9, 4, 0], al_n = 3, al_length = 3\<rparr> 3
        = Inl (IndexOutOfRange, \<lparr>al_arr = [7, 9, 4, 0], al_n = 3, al_length = 3\<rparr>)"
proof -
  let ?s = "\<lparr>al_arr = [7, 9, 4, 0], al_n = 3, al_length = 3\<rparr>"
  have v: "valid ?s"
    by (simp add: valid_def)
  have el: "elements ?s = [7, 9, 4]"
    by (simp add: elements_def)
  from v el remove_at_shifts_or_rejects [of ?s 0] remove_at_shifts_or_rejects [of ?s 3]
  show ?thesis
    by auto
qed

subsection \<open>find\<close>

lemma sint_small:
  assumes "unat (i::64 word) < 2 ^ 63"
  shows "sint i = int (unat i)"
proof -
  have u: "uint i = int (unat i)"
    by simp
  have "int (unat i) < int (2 ^ 63)"
    using assms by (simp only: of_nat_less_iff)
  with u have hi: "uint i < 2 ^ 63"
    by simp
  have "(0::int) \<le> 2 ^ 63"
    by simp
  moreover have "0 \<le> uint i"
    by simp
  ultimately have lo: "- (2 ^ 63) \<le> uint i"
    by linarith
  have "sint i = signed_take_bit (LENGTH(64) - Suc 0) (uint i)"
    by (rule sint_uint)
  also have "LENGTH(64) - Suc 0 = 63"
    by simp
  also from lo hi have "signed_take_bit 63 (uint i) = uint i"
    by (rule signed_take_bit_int_eq_self)
  also note u
  finally show ?thesis .
qed

lemma find_loop_found:
  "unat (al_n s) \<le> length (al_arr s) \<Longrightarrow> i \<le> j \<Longrightarrow> j < al_n s \<Longrightarrow>
   cmp (al_arr s ! unat j) e = 0 \<Longrightarrow>
   (\<forall>k. unat i \<le> k \<and> k < unat j \<longrightarrow> cmp (al_arr s ! k) e \<noteq> 0) \<Longrightarrow>
   find_loop s e cmp i = Inr j"
proof (induction s e cmp i rule: find_loop.induct)
  case (1 s e cmp i)
  from "1.prems"(2,3) have lt: "i < al_n s"
    by simp
  then have inb: "unat i < length (al_arr s)"
    using "1.prems"(1) by (simp add: word_less_nat_alt)
  show ?case
  proof (cases "i = j")
    case True
    with lt inb "1.prems"(4) show ?thesis
      by (subst find_loop.simps) simp
  next
    case False
    with "1.prems"(2) have ij: "i < j"
      by simp
    then have uI: "unat (i + 1) = unat i + 1"
      by (rule unat_succ_less)
    from ij have "unat i < unat j"
      by (simp add: word_less_nat_alt)
    with "1.prems"(5) have ne: "cmp (al_arr s ! unat i) e \<noteq> 0"
      by simp
    have le: "i + 1 \<le> j"
      using ij uI by (simp add: word_le_nat_alt word_less_nat_alt)
    have rest: "\<forall>k. unat (i + 1) \<le> k \<and> k < unat j \<longrightarrow> cmp (al_arr s ! k) e \<noteq> 0"
      using "1.prems"(5) uI by simp
    have "find_loop s e cmp (i + 1) = Inr j"
      using lt inb ne "1.prems"(1) le "1.prems"(3,4) rest by (rule "1.IH")
    with lt inb ne show ?thesis
      by (subst find_loop.simps) simp
  qed
qed

lemma find_loop_absent:
  "unat (al_n s) \<le> length (al_arr s) \<Longrightarrow>
   (\<forall>k. unat i \<le> k \<and> k < unat (al_n s) \<longrightarrow> cmp (al_arr s ! k) e \<noteq> 0) \<Longrightarrow>
   find_loop s e cmp i = Inr (- 1)"
proof (induction s e cmp i rule: find_loop.induct)
  case (1 s e cmp i)
  show ?case
  proof (cases "i < al_n s")
    case False
    then show ?thesis
      by (subst find_loop.simps) simp
  next
    case True
    then have inb: "unat i < length (al_arr s)"
      using "1.prems"(1) by (simp add: word_less_nat_alt)
    from True have uI: "unat (i + 1) = unat i + 1"
      by (rule unat_succ_less)
    from True "1.prems"(2) have ne: "cmp (al_arr s ! unat i) e \<noteq> 0"
      by (simp add: word_less_nat_alt)
    have rest: "\<forall>k. unat (i + 1) \<le> k \<and> k < unat (al_n s) \<longrightarrow> cmp (al_arr s ! k) e \<noteq> 0"
      using "1.prems"(2) uI by simp
    have "find_loop s e cmp (i + 1) = Inr (- 1)"
      using True inb ne "1.prems"(1) rest by (rule "1.IH")
    with True inb ne show ?thesis
      by (subst find_loop.simps) simp
  qed
qed

text \<open>
  Claim C6. On a well-formed container, for every target and comparator, where a match of
  the comparator is its return value 0 as in the source: if \<open>j\<close> is below the count, the
  element at \<open>j\<close> matches the target and no element at a lower index does, \<^verbatim>\<open>find\<close>
  returns \<open>j\<close>, which read as \<^verbatim>\<open>ssize_t\<close> is not negative; if no element below the count
  matches, \<^verbatim>\<open>find\<close> returns \<open>-1\<close>, and so it does on every empty container.
\<close>

theorem find_lowest_match:
  "(valid s \<and> j < al_n s \<and> cmp (elements s ! unat j) e = 0
      \<and> (\<forall>k < unat j. cmp (elements s ! k) e \<noteq> 0) \<longrightarrow>
        find s e cmp = Inr j \<and> sint j = int (unat j))
   \<and> (valid s \<and> (\<forall>k < unat (al_n s). cmp (elements s ! k) e \<noteq> 0) \<longrightarrow>
        find s e cmp = Inr (- 1) \<and> sint (- 1 :: ssize_t) = - 1)
   \<and> (al_n s = 0 \<longrightarrow> find s e cmp = Inr (- 1))"
proof (intro conjI impI)
  assume h: "valid s \<and> j < al_n s \<and> cmp (elements s ! unat j) e = 0
      \<and> (\<forall>k < unat j. cmp (elements s ! k) e \<noteq> 0)"
  then have lt: "unat j < unat (al_n s)"
    by (simp add: word_less_nat_alt)
  from h have inb: "unat (al_n s) \<le> length (al_arr s)"
    by (simp add: valid_def)
  from h lt have m: "cmp (al_arr s ! unat j) e = 0"
    by (simp add: elements_def)
  from h lt have "\<forall>k. unat (0::size_t) \<le> k \<and> k < unat j \<longrightarrow> cmp (al_arr s ! k) e \<noteq> 0"
    by (auto simp: elements_def)
  with inb h m show "find s e cmp = Inr j"
    unfolding find_def by (intro find_loop_found) simp_all
  from h lt have "unat j < 2 ^ 63"
    using valid_n_small [of s] by simp
  then show "sint j = int (unat j)"
    by (rule sint_small)
next
  assume h: "valid s \<and> (\<forall>k < unat (al_n s). cmp (elements s ! k) e \<noteq> 0)"
  then have inb: "unat (al_n s) \<le> length (al_arr s)"
    by (simp add: valid_def)
  from h have "\<forall>k. unat (0::size_t) \<le> k \<and> k < unat (al_n s) \<longrightarrow> cmp (al_arr s ! k) e \<noteq> 0"
    by (auto simp: elements_def)
  with inb show "find s e cmp = Inr (- 1)"
    unfolding find_def by (rule find_loop_absent)
  show "sint (- 1 :: ssize_t) = - 1"
    by simp
next
  assume "al_n s = 0"
  then show "find s e cmp = Inr (- 1)"
    unfolding find_def by (subst find_loop.simps) simp
qed

theorem find_lowest_match_witness:
  "valid \<lparr>al_arr = [7, 9, 7, 0], al_n = 3, al_length = 3\<rparr>
   \<and> find \<lparr>al_arr = [7, 9, 7, 0], al_n = 3, al_length = 3\<rparr> 7 (\<lambda>a b. if a = b then 0 else 1) = Inr 0
   \<and> find \<lparr>al_arr = [7, 9, 7, 0], al_n = 3, al_length = 3\<rparr> 9 (\<lambda>a b. if a = b then 0 else 1) = Inr 1
   \<and> find \<lparr>al_arr = [7, 9, 7, 0], al_n = 3, al_length = 3\<rparr> 4 (\<lambda>a b. if a = b then 0 else 1) = Inr (- 1)
   \<and> find \<lparr>al_arr = [0, 0, 0], al_n = 0, al_length = 2\<rparr> 4 (\<lambda>a b. if a = b then 0 else 1) = Inr (- 1)"
proof -
  let ?s = "\<lparr>al_arr = [7, 9, 7, 0], al_n = 3, al_length = 3\<rparr>"
  let ?e = "\<lparr>al_arr = [0, 0, 0], al_n = 0, al_length = 2\<rparr>"
  let ?cmp = "\<lambda>a b::ptr. if a = b then 0 else 1 :: c_int"
  have v: "valid ?s"
    by (simp add: valid_def)
  have el: "elements ?s = [7, 9, 7]"
    by (simp add: elements_def)
  have none: "\<forall>k < unat (al_n ?s). ?cmp (elements ?s ! k) 4 \<noteq> 0"
  proof (intro allI impI)
    fix k
    assume "k < unat (al_n ?s)"
    then have "k = 0 \<or> k = 1 \<or> k = 2"
      by auto
    then show "?cmp (elements ?s ! k) 4 \<noteq> 0"
      by (auto simp: el)
  qed
  have a: "find ?s 7 ?cmp = Inr 0"
    using v el find_lowest_match [of ?s 0 ?cmp 7] by simp
  have b: "find ?s 9 ?cmp = Inr 1"
    using v el find_lowest_match [of ?s 1 ?cmp 9] by simp
  have c: "find ?s 4 ?cmp = Inr (- 1)"
    using v none find_lowest_match [of ?s 0 ?cmp 4] by blast
  have d: "find ?e 4 ?cmp = Inr (- 1)"
    using find_lowest_match [of ?e 0 ?cmp 4] by simp
  from v a b c d show ?thesis
    by simp
qed

subsection \<open>Count within capacity along every run\<close>

lemma realloc_bound:
  assumes "realloc A blk b = Some new"
  shows "8 * length new < 18446744073709551616"
proof -
  from assms have "length new = slots_of b"
    by (rule realloc_length)
  with slots_of_bound [of b] show ?thesis
    by (simp only:)
qed

lemma bounded_init: "init A len = Inr s \<Longrightarrow> bounded s"
  by (rule valid_bounded) (rule init_valid)

lemma bounded_resize:
  assumes "bounded s" "resize A s sz = Inr s'"
  shows "bounded s'"
  using resize_Inr [OF assms(2)] assms(1)
  by (auto simp: bounded_def word_less_nat_alt dest: realloc_bound)

lemma bounded_shrink_to_fit:
  assumes "bounded s" "shrink_to_fit A s = Inr s'"
  shows "bounded s'"
  using shrink_Inr [OF assms(2)] assms(1)
  by (auto simp: bounded_def dest: realloc_bound)

lemma grow_bounded:
  assumes "bounded s" "grow_step A s = Inr s1" "unat (al_n s1 + 1) < length (al_arr s1)"
  shows "8 * length (al_arr s1) < 18446744073709551616 \<and> unat (al_n s1 + 1) \<le> unat (al_length s1)"
proof -
  let ?N = "unat (al_n s)" and ?L = "unat (al_length s)"
  from assms(1) have le: "?N \<le> ?L" and fit: "8 * length (al_arr s) < 18446744073709551616"
    by (simp_all add: bounded_def)
  from grow_Inr [OF assms(2)] have n1: "al_n s1 = al_n s"
    by auto
  from grow_Inr [OF assms(2)] fit have fit1: "8 * length (al_arr s1) < 18446744073709551616"
    by (auto dest: realloc_bound)
  have "unat (al_n s + 1) \<le> unat (al_length s1)"
  proof (cases "?N + 1 < 18446744073709551616")
    case False
    with unat_lt64 [of "al_n s"] have "?N + 1 = 18446744073709551616"
      by linarith
    moreover have "unat (al_n s + 1) = (?N + 1) mod 18446744073709551616"
      by (simp add: unat_word_ariths)
    ultimately have "unat (al_n s + 1) = 0"
      by (simp only: mod_self)
    then show ?thesis
      by (simp only: le0)
  next
    case True
    then have u: "unat (al_n s + 1) = ?N + 1"
      by (rule unat_plus1)
    from grow_Inr [OF assms(2)] consider
        (free) "al_n s \<noteq> al_length s" "s1 = s"
      | (stuck) "al_n s = al_length s" "al_length s * 2 + 1 \<le> al_n s" "s1 = s"
      | (grown) "al_n s < al_length s * 2 + 1" "al_length s1 = al_length s * 2 + 1"
      by auto
    then show ?thesis
    proof cases
      case free
      then have "?N \<noteq> ?L"
        by (simp add: word_unat_eq_iff)
      with le u free show ?thesis
        by simp
    next
      case stuck
      from assms(3) n1 u fit1 have "?N < 2305843009213693952"
        by simp
      with stuck(1) have "unat (al_length s * 2 + 1) = 2 * ?L + 1"
        by (simp add: unat_double_succ)
      with stuck(1,2) show ?thesis
        by (simp add: word_le_nat_alt)
    next
      case grown
      then show ?thesis
        using u by (simp add: word_less_nat_alt)
    qed
  qed
  with fit1 n1 show ?thesis
    by simp
qed

lemma bounded_push_back:
  assumes "bounded s" "push_back A s e = Inr s'"
  shows "bounded s'"
proof -
  from assms(2) obtain s1 where g: "grow_step A s = Inr s1"
    and r: "unat (al_n s1 + 1) < length (al_arr s1)"
    and s': "s' = s1\<lparr>al_arr := (al_arr s1)[unat (al_n s1) := e, unat (al_n s1 + 1) := NULL],
                      al_n := al_n s1 + 1\<rparr>"
    by (auto simp: push_back_Inr)
  from grow_bounded [OF assms(1) g r] s' show ?thesis
    by (simp add: bounded_def)
qed

lemma bounded_insert_at:
  assumes "bounded s" "insert_at A s e i = Inr s'"
  shows "bounded s'"
proof -
  from insert_at_Inr [OF assms(2)] obtain s1 where g: "grow_step A s = Inr s1"
    and r: "unat (al_n s1 + 1) < length (al_arr s1)"
    and s': "al_n s' = al_n s1 + 1" "al_length s' = al_length s1"
      "length (al_arr s') = length (al_arr s1)"
    by blast
  from grow_bounded [OF assms(1) g r] s' show ?thesis
    by (simp add: bounded_def)
qed

lemma bounded_pop_back:
  assumes "bounded s" "pop_back s = Inr (s', out)"
  shows "bounded s'"
proof (cases "al_n s = 0")
  case True
  with assms show ?thesis
    by (simp add: pop_back_def)
next
  case False
  then have "unat (al_n s - 1) = unat (al_n s) - 1"
    by (rule unat_minus_one)
  with False assms show ?thesis
    by (auto simp: pop_back_def Let_def then_do_Inr store_Inr bounded_def)
qed

lemma remove_loop_Inr:
  "remove_loop s i = Inr s' \<Longrightarrow>
     al_n s' = al_n s \<and> al_length s' = al_length s \<and> length (al_arr s') = length (al_arr s)"
proof (induction s i rule: remove_loop.induct)
  case (1 s i)
  show ?case
  proof (cases "i < al_n s - 1")
    case False
    with "1.prems" show ?thesis
      by (subst (asm) remove_loop.simps) simp
  next
    case True
    let ?t = "s\<lparr>al_arr := (al_arr s)[unat i := al_arr s ! unat (i + 1)]\<rparr>"
    from True "1.prems" have inb: "unat (i + 1) < length (al_arr s) \<and> unat i < length (al_arr s)"
      by (subst (asm) remove_loop.simps) (simp split: if_splits)
    with True "1.prems" have "remove_loop ?t (i + 1) = Inr s'"
      by (subst (asm) remove_loop.simps) simp
    with True inb have "al_n s' = al_n ?t \<and> al_length s' = al_length ?t
        \<and> length (al_arr s') = length (al_arr ?t)"
      by (rule "1.IH")
    moreover have "al_n ?t = al_n s" "al_length ?t = al_length s"
      "length (al_arr ?t) = length (al_arr s)"
      by simp_all
    ultimately show ?thesis
      by (simp only:)
  qed
qed

lemma bounded_remove_at:
  assumes "bounded s" "remove_at s i = Inr s'"
  shows "bounded s'"
proof -
  from assms(2) have lt: "i < al_n s"
    by (auto simp: remove_at_def split: if_splits)
  then have "al_n s \<noteq> 0"
    by auto
  then have u: "unat (al_n s - 1) = unat (al_n s) - 1"
    by (rule unat_minus_one)
  from lt have "\<not> al_n s \<le> i"
    by simp
  with assms(2) have "then_do (remove_loop s i) (\<lambda>s1.
      store (s1\<lparr>al_n := al_n s1 - 1\<rparr>) (al_n s1 - 1) NULL) = Inr s'"
    by (simp add: remove_at_def Let_def)
  then obtain s1 where l: "remove_loop s i = Inr s1"
    and st: "store (s1\<lparr>al_n := al_n s1 - 1\<rparr>) (al_n s1 - 1) NULL = Inr s'"
    unfolding then_do_Inr by blast
  from st have n': "al_n s' = al_n s1 - 1" and l': "al_length s' = al_length s1"
    and a': "length (al_arr s') = length (al_arr s1)"
    by (auto simp: store_def split: if_splits)
  from remove_loop_Inr [OF l] have "al_n s1 = al_n s" "al_length s1 = al_length s"
    "length (al_arr s1) = length (al_arr s)"
    by simp_all
  with n' l' a' u assms(1) show ?thesis
    by (auto simp: bounded_def)
qed

lemma bounded_exec:
  assumes "bounded s" "exec s c = Inr s'"
  shows "bounded s'"
proof (cases c)
  case (Push_back A e)
  with assms show ?thesis by (auto intro: bounded_push_back)
next
  case Pop_back
  with assms show ?thesis by (auto simp: then_do_Inr intro: bounded_pop_back)
next
  case (Insert_at A e i)
  with assms show ?thesis by (auto intro: bounded_insert_at)
next
  case (Remove_at i)
  with assms show ?thesis by (auto intro: bounded_remove_at)
next
  case (Resize A sz)
  with assms show ?thesis by (auto intro: bounded_resize)
next
  case (Shrink_to_fit A)
  with assms show ?thesis by (auto intro: bounded_shrink_to_fit)
qed

lemma bounded_run: "bounded s \<Longrightarrow> run s cs = Inr s' \<Longrightarrow> bounded s'"
proof (induction cs arbitrary: s)
  case Nil
  then show ?case by simp
next
  case (Cons c cs)
  from Cons.prems(2) obtain t where "exec s c = Inr t" "run t cs = Inr s'"
    by (auto simp: then_do_Inr)
  with Cons.prems(1) Cons.IH show ?case
    by (blast intro: bounded_exec)
qed

subsection \<open>Calls that do not return\<close>

lemma grow_Inl: "grow_step A s = Inl (e, t) \<Longrightarrow> e = OutOfMemory \<and> t = s"
  by (auto simp: grow_step_def resize_def split: if_splits option.splits)

lemma store_Inl: "store s i v = Inl (e, t) \<Longrightarrow> e = MemoryFault"
  by (auto simp: store_def split: if_splits)

lemma memmove_Inl: "memmove s d src b = Inl (e, t) \<Longrightarrow> e = MemoryFault"
  by (auto simp: memmove_def Let_def split: if_splits)

lemma then_do_Inl:
  "then_do m f = Inl x \<longleftrightarrow> m = Inl x \<or> (\<exists>y. m = Inr y \<and> f y = Inl x)"
  by (cases m) (simp_all add: then_do_def)

lemma remove_loop_Inl: "remove_loop s i = Inl (e, t) \<Longrightarrow> e = MemoryFault"
proof (induction s i rule: remove_loop.induct)
  case (1 s i)
  show ?case
  proof (cases "i < al_n s - 1 \<and> unat (i + 1) < length (al_arr s) \<and> unat i < length (al_arr s)")
    case True
    with "1.prems" have "remove_loop (s\<lparr>al_arr := (al_arr s)[unat i := al_arr s ! unat (i + 1)]\<rparr>) (i + 1)
        = Inl (e, t)"
      by (subst (asm) remove_loop.simps) simp
    with True show ?thesis
      by (intro "1.IH") simp_all
  next
    case False
    with "1.prems" show ?thesis
      by (subst (asm) remove_loop.simps) (auto split: if_splits)
  qed
qed

lemma push_back_Inl:
  assumes "push_back A s x = Inl (e, t)"
  shows "e = MemoryFault \<or> t = s"
  using assms
  by (auto simp: push_back_grow_step then_do_Inl Let_def dest: grow_Inl store_Inl)

lemma insert_at_Inl:
  assumes "insert_at A s x i = Inl (e, t)"
  shows "e = MemoryFault \<or> t = s"
proof (cases "al_n s < i")
  case True
  with assms show ?thesis
    by (simp add: insert_at_range)
next
  case False
  then have "i \<le> al_n s"
    by simp
  with assms show ?thesis
    by (auto simp: insert_at_grow_step then_do_Inl Let_def dest: grow_Inl store_Inl memmove_Inl)
qed

lemma remove_at_Inl:
  assumes "remove_at s i = Inl (e, t)"
  shows "e = MemoryFault \<or> t = s"
proof (cases "al_n s \<le> i")
  case True
  with assms show ?thesis
    by (simp add: remove_at_range)
next
  case False
  with assms have "then_do (remove_loop s i) (\<lambda>s1.
      store (s1\<lparr>al_n := al_n s1 - 1\<rparr>) (al_n s1 - 1) NULL) = Inl (e, t)"
    by (simp add: remove_at_def Let_def)
  then show ?thesis
    by (auto simp: then_do_Inl dest: remove_loop_Inl store_Inl)
qed

lemma exec_Inl:
  assumes "exec s c = Inl (e, t)"
  shows "e = MemoryFault \<or> t = s"
proof (cases c)
  case (Push_back A x)
  with assms show ?thesis by (auto dest: push_back_Inl)
next
  case Pop_back
  with assms show ?thesis
    by (auto simp: then_do_Inl pop_back_def Let_def split: if_splits dest: store_Inl)
next
  case (Insert_at A x i)
  with assms show ?thesis by (auto dest: insert_at_Inl)
next
  case (Remove_at i)
  with assms show ?thesis by (auto dest: remove_at_Inl)
next
  case (Resize A sz)
  with assms show ?thesis by (auto simp: resize_def split: if_splits option.splits)
next
  case (Shrink_to_fit A)
  with assms show ?thesis by (auto simp: shrink_to_fit_def split: if_splits option.splits)
qed

lemma bounded_run_Inl:
  "bounded s \<Longrightarrow> run s cs = Inl (e, t) \<Longrightarrow> e \<noteq> MemoryFault \<Longrightarrow> bounded t"
proof (induction cs arbitrary: s)
  case Nil
  then show ?case by simp
next
  case (Cons c cs)
  from Cons.prems(2) consider (now) "exec s c = Inl (e, t)"
    | (later) s' where "exec s c = Inr s'" "run s' cs = Inl (e, t)"
    by (auto simp: then_do_Inl)
  then show ?case
  proof cases
    case now
    with Cons.prems(3) exec_Inl [of s c e t] have "t = s"
      by simp
    with Cons.prems(1) show ?thesis
      by simp
  next
    case later
    from Cons.prems(1) later(1) have "bounded s'"
      by (rule bounded_exec)
    from this later(2) Cons.prems(3) show ?thesis
      by (rule Cons.IH)
  qed
qed

text \<open>
  Claim C1. Whatever the allocator does, after \<^verbatim>\<open>init\<close> has returned and after any run
  of calls of \<^verbatim>\<open>push_back\<close>, \<^verbatim>\<open>pop_back\<close>, \<^verbatim>\<open>insert_at\<close>, \<^verbatim>\<open>remove_at\<close>, \<^verbatim>\<open>resize\<close> and
  \<^verbatim>\<open>shrink_to_fit\<close> that have all returned, the count is at most the capacity. A run
  stops at the first call that does not return, so this covers the state after every
  call of the run. When the run ends in a call that reports \<^verbatim>\<open>out of memory\<close> or
  \<^verbatim>\<open>Index out of range\<close>, the count is at most the capacity at that moment as well.
\<close>

theorem count_within_capacity:
  "(init A len = Inr s0 \<and> run s0 cs = Inr s \<longrightarrow> al_n s \<le> al_length s)
   \<and> (init A len = Inr s0 \<and> run s0 cs = Inl (e, t) \<and> e \<noteq> MemoryFault \<longrightarrow>
        al_n t \<le> al_length t)"
proof (intro conjI impI)
  assume h: "init A len = Inr s0 \<and> run s0 cs = Inr s"
  then have "init A len = Inr s0" and r: "run s0 cs = Inr s"
    by simp_all
  then have "bounded s0"
    by (simp only: bounded_init)
  from this r have "bounded s"
    by (rule bounded_run)
  then show "al_n s \<le> al_length s"
    by (simp add: bounded_def word_le_nat_alt)
next
  assume h: "init A len = Inr s0 \<and> run s0 cs = Inl (e, t) \<and> e \<noteq> MemoryFault"
  then have "init A len = Inr s0" and r: "run s0 cs = Inl (e, t)" and e: "e \<noteq> MemoryFault"
    by simp_all
  then have "bounded s0"
    by (simp only: bounded_init)
  from this r e have "bounded t"
    by (rule bounded_run_Inl)
  then show "al_n t \<le> al_length t"
    by (simp add: bounded_def word_le_nat_alt)
qed

lemma init_two:
  "init (\<lambda>b. Some (\<lambda>i. 5)) 2 = Inr \<lparr>al_arr = [0, 0, 0], al_n = 0, al_length = 2\<rparr>"
proof -
  have "init (\<lambda>b::size_t. Some (\<lambda>i::nat. 5::ptr)) 2
      = Inr \<lparr>al_arr = replicate (unat (2::size_t) + 1) NULL, al_n = 0, al_length = 2\<rparr>"
    by (rule init_ok) simp_all
  then show ?thesis
    by (simp add: NULL_def numeral_3_eq_3)
qed

theorem count_within_capacity_witness:
  "init (\<lambda>b. Some (\<lambda>i. 5)) 2 = Inr \<lparr>al_arr = [0, 0, 0], al_n = 0, al_length = 2\<rparr>
   \<and> run \<lparr>al_arr = [0, 0, 0], al_n = 0, al_length = 2\<rparr>
         [Push_back (\<lambda>b. Some (\<lambda>i. 5)) 7, Push_back (\<lambda>b. Some (\<lambda>i. 5)) 9,
          Push_back (\<lambda>b. Some (\<lambda>i. 5)) 4, Pop_back, Insert_at (\<lambda>b. Some (\<lambda>i. 5)) 3 0,
          Remove_at 1, Resize (\<lambda>b. Some (\<lambda>i. 5)) 10, Shrink_to_fit (\<lambda>b. Some (\<lambda>i. 5))]
       = Inr \<lparr>al_arr = [3, 9, 0], al_n = 2, al_length = 2\<rparr>
   \<and> al_n \<lparr>al_arr = [3, 9, 0], al_n = 2, al_length = 2\<rparr>
       \<le> al_length \<lparr>al_arr = [3, 9, 0], al_n = 2, al_length = 2\<rparr>
   \<and> run \<lparr>al_arr = [0, 0, 0], al_n = 0, al_length = 2\<rparr>
         [Push_back (\<lambda>b. Some (\<lambda>i. 5)) 7, Remove_at 5]
       = Inl (IndexOutOfRange, \<lparr>al_arr = [7, 0, 0], al_n = 1, al_length = 2\<rparr>)
   \<and> al_n \<lparr>al_arr = [7, 0, 0], al_n = 1, al_length = 2\<rparr>
       \<le> al_length \<lparr>al_arr = [7, 0, 0], al_n = 1, al_length = 2\<rparr>"
proof -
  let ?A = "\<lambda>b::size_t. Some (\<lambda>i::nat. 5::ptr)"
  let ?start = "\<lparr>al_arr = [0, 0, 0], al_n = 0, al_length = 2\<rparr>"
  let ?cs = "[Push_back ?A 7, Push_back ?A 9, Push_back ?A 4, Pop_back, Insert_at ?A 3 0,
          Remove_at 1, Resize ?A 10, Shrink_to_fit ?A]"
  let ?final = "\<lparr>al_arr = [3, 9, 0], al_n = 2, al_length = 2\<rparr>"
  let ?ds = "[Push_back ?A 7, Remove_at 5]"
  let ?stop = "\<lparr>al_arr = [7, 0, 0], al_n = 1, al_length = 2\<rparr>"
  have i: "init ?A 2 = Inr ?start"
    by (rule init_two)
  have r: "run ?start ?cs = Inr ?final"
    by (simp add: push_back_def pop_back_def insert_at_def remove_at_def resize_def
          shrink_to_fit_def realloc_def memmove_def then_do_def store_def NULL_def
          sizeof_ptr_def slots_of_def Let_def upt_rec word_le_nat_alt word_less_nat_alt
          remove_loop.simps)
  have d: "run ?start ?ds = Inl (IndexOutOfRange, ?stop)"
    by (simp add: push_back_def remove_at_def then_do_def store_def NULL_def
          word_le_nat_alt)
  from i r count_within_capacity [of ?A 2 ?start ?cs ?final]
  have 1: "al_n ?final \<le> al_length ?final"
    by blast
  from i d count_within_capacity [of ?A 2 ?start ?ds _ IndexOutOfRange ?stop]
  have 2: "al_n ?stop \<le> al_length ?stop"
    by blast
  from i r d 1 2 show ?thesis
    by blast
qed

subsection \<open>The size computation of resize wraps around\<close>

text \<open>
  Claim C7 says that \<^verbatim>\<open>resize\<close> with a new capacity above the count leaves the stored
  elements unchanged. The byte count \<^verbatim>\<open>(size + 1) * sizeof(void *)\<close> is computed in
  \<^verbatim>\<open>size_t\<close> and is not checked for overflow. After \<^verbatim>\<open>init(2)\<close>, \<^verbatim>\<open>push_back(7)\<close> and
  \<^verbatim>\<open>push_back(9)\<close> the container is well-formed and holds 7 and 9; \<^verbatim>\<open>resize\<close> to
  \<open>2 ^ 61\<close> then asks \<^verbatim>\<open>realloc\<close> for 8 bytes, returns with the capacity field at
  \<open>2 ^ 61\<close> and a block of one slot: the element at index 1 is gone.
\<close>

theorem resize_wraps_and_truncates:
  "init (\<lambda>b. Some (\<lambda>i. 5)) 2 = Inr \<lparr>al_arr = [0, 0, 0], al_n = 0, al_length = 2\<rparr>
   \<and> run \<lparr>al_arr = [0, 0, 0], al_n = 0, al_length = 2\<rparr>
         [Push_back (\<lambda>b. Some (\<lambda>i. 5)) 7, Push_back (\<lambda>b. Some (\<lambda>i. 5)) 9]
       = Inr \<lparr>al_arr = [7, 9, 0], al_n = 2, al_length = 2\<rparr>
   \<and> valid \<lparr>al_arr = [7, 9, 0], al_n = 2, al_length = 2\<rparr>
   \<and> elements \<lparr>al_arr = [7, 9, 0], al_n = 2, al_length = 2\<rparr> = [7, 9]
   \<and> (2305843009213693952 + 1) * sizeof_ptr = 8
   \<and> resize (\<lambda>b. Some (\<lambda>i. 5)) \<lparr>al_arr = [7, 9, 0], al_n = 2, al_length = 2\<rparr> 2305843009213693952
       = Inr \<lparr>al_arr = [7], al_n = 2, al_length = 2305843009213693952\<rparr>
   \<and> elements \<lparr>al_arr = [7], al_n = 2, al_length = 2305843009213693952\<rparr> = [7]"
proof (intro conjI)
  show "init (\<lambda>b. Some (\<lambda>i. 5)) 2 = Inr \<lparr>al_arr = [0, 0, 0], al_n = 0, al_length = 2\<rparr>"
    by (rule init_two)
  show "run \<lparr>al_arr = [0, 0, 0], al_n = 0, al_length = 2\<rparr>
         [Push_back (\<lambda>b. Some (\<lambda>i. 5)) 7, Push_back (\<lambda>b. Some (\<lambda>i. 5)) 9]
       = Inr \<lparr>al_arr = [7, 9, 0], al_n = 2, al_length = 2\<rparr>"
    by (simp add: push_back_def then_do_def store_def NULL_def)
  show "valid \<lparr>al_arr = [7, 9, 0], al_n = 2, al_length = 2\<rparr>"
    by (simp add: valid_def)
  show "elements \<lparr>al_arr = [7, 9, 0], al_n = 2, al_length = 2\<rparr> = [7, 9]"
    by (simp add: elements_def)
  show "(2305843009213693952 + 1) * sizeof_ptr = 8"
    by (simp add: sizeof_ptr_def)
  show "resize (\<lambda>b. Some (\<lambda>i. 5)) \<lparr>al_arr = [7, 9, 0], al_n = 2, al_length = 2\<rparr> 2305843009213693952
       = Inr \<lparr>al_arr = [7], al_n = 2, al_length = 2305843009213693952\<rparr>"
    by (simp add: resize_def realloc_def sizeof_ptr_def slots_of_def)
  show "elements \<lparr>al_arr = [7], al_n = 2, al_length = 2305843009213693952\<rparr> = [7]"
    by (simp add: elements_def)
qed

subsection \<open>The terminator slot\<close>

text \<open>
  On well-formed containers the slot at index \<open>n\<close> exists and holds \<^verbatim>\<open>NULL\<close> after
  \<^verbatim>\<open>init\<close> and after each of \<^verbatim>\<open>push_back\<close>, \<^verbatim>\<open>pop_back\<close>, \<^verbatim>\<open>insert_at\<close> and \<^verbatim>\<open>remove_at\<close>,
  and these calls, \<^verbatim>\<open>shrink_to_fit\<close> and a \<^verbatim>\<open>resize\<close> to fewer than \<open>2 ^ 61 - 1\<close> slots
  return well-formed containers.
\<close>

lemma init_terminator:
  "init A len = Inr s \<Longrightarrow> valid s \<and> al_arr s ! unat (al_n s) = NULL"
  by (frule init_valid, drule init_Inr) simp

lemma resize_keeps_terminator:
  assumes "valid s" "unat sz + 1 < 2305843009213693952" "resize A s sz = Inr s'"
  shows "valid s' \<and> al_arr s' ! unat (al_n s') = al_arr s ! unat (al_n s)"
proof (cases "sz \<le> al_n s")
  case True
  with assms show ?thesis
    by (simp add: resize_noop)
next
  case False
  then have lt: "al_n s < sz"
    by simp
  from assms(3) False have "A ((sz + 1) * sizeof_ptr) \<noteq> None"
    by (auto simp: resize_def realloc_def split: option.splits)
  with resize_grow [of s sz A] assms(1) lt assms(2) assms(3)
  have v: "valid s'" and n: "al_n s' = al_n s"
    and tk: "take (unat (al_n s) + 1) (al_arr s') = take (unat (al_n s) + 1) (al_arr s)"
    by auto
  from tk have "take (unat (al_n s) + 1) (al_arr s') ! unat (al_n s)
      = take (unat (al_n s) + 1) (al_arr s) ! unat (al_n s)"
    by (simp only:)
  then have "al_arr s' ! unat (al_n s) = al_arr s ! unat (al_n s)"
    by simp
  with v n show ?thesis
    by simp
qed

lemma shrink_keeps_terminator:
  assumes "valid s" "shrink_to_fit A s = Inr s'"
  shows "valid s' \<and> al_arr s' ! unat (al_n s') = al_arr s ! unat (al_n s)"
proof (cases "al_n s = al_length s")
  case True
  with assms show ?thesis
    by (simp add: shrink_noop)
next
  case False
  with assms(2) have "A ((al_n s + 1) * sizeof_ptr) \<noteq> None"
    by (auto simp: shrink_to_fit_def realloc_def split: option.splits)
  with shrink_fit [of s A] assms(1) False assms(2) show ?thesis
    by auto
qed

text \<open>
  Claim C10 says that the block always has one slot more than the capacity and that the
  slot at index \<open>n\<close> holds \<^verbatim>\<open>NULL\<close> in every reachable state. After \<^verbatim>\<open>init(2)\<close>,
  \<^verbatim>\<open>push_back(7)\<close>, \<^verbatim>\<open>push_back(9)\<close> and \<^verbatim>\<open>resize\<close> to \<open>2 ^ 61\<close> the capacity is
  \<open>2 ^ 61\<close> and the block has one slot: there is no slot at index \<open>n = 2\<close>, and the
  \<^verbatim>\<open>pop_back\<close> or \<^verbatim>\<open>push_back\<close> that follows writes outside the block.
\<close>

theorem terminator_slot_lost:
  "init (\<lambda>b. Some (\<lambda>i. 5)) 2 = Inr \<lparr>al_arr = [0, 0, 0], al_n = 0, al_length = 2\<rparr>
   \<and> run \<lparr>al_arr = [0, 0, 0], al_n = 0, al_length = 2\<rparr>
         [Push_back (\<lambda>b. Some (\<lambda>i. 5)) 7, Push_back (\<lambda>b. Some (\<lambda>i. 5)) 9,
          Resize (\<lambda>b. Some (\<lambda>i. 5)) 2305843009213693952]
       = Inr \<lparr>al_arr = [7], al_n = 2, al_length = 2305843009213693952\<rparr>
   \<and> length (al_arr \<lparr>al_arr = [7], al_n = 2, al_length = 2305843009213693952\<rparr>) = 1
   \<and> unat (al_length \<lparr>al_arr = [7], al_n = 2, al_length = 2305843009213693952\<rparr>) + 1
       = 2305843009213693953
   \<and> unat (al_n \<lparr>al_arr = [7], al_n = 2, al_length = 2305843009213693952\<rparr>) = 2
   \<and> pop_back \<lparr>al_arr = [7], al_n = 2, al_length = 2305843009213693952\<rparr>
       = Inl (MemoryFault, \<lparr>al_arr = [7], al_n = 1, al_length = 2305843009213693952\<rparr>)
   \<and> push_back A \<lparr>al_arr = [7], al_n = 2, al_length = 2305843009213693952\<rparr> 4
       = Inl (MemoryFault, \<lparr>al_arr = [7], al_n = 2, al_length = 2305843009213693952\<rparr>)"
proof (intro conjI)
  show "init (\<lambda>b. Some (\<lambda>i. 5)) 2 = Inr \<lparr>al_arr = [0, 0, 0], al_n = 0, al_length = 2\<rparr>"
    by (rule init_two)
  show "run \<lparr>al_arr = [0, 0, 0], al_n = 0, al_length = 2\<rparr>
         [Push_back (\<lambda>b. Some (\<lambda>i. 5)) 7, Push_back (\<lambda>b. Some (\<lambda>i. 5)) 9,
          Resize (\<lambda>b. Some (\<lambda>i. 5)) 2305843009213693952]
       = Inr \<lparr>al_arr = [7], al_n = 2, al_length = 2305843009213693952\<rparr>"
    by (simp add: push_back_def then_do_def store_def NULL_def resize_def realloc_def
          sizeof_ptr_def slots_of_def)
  show "pop_back \<lparr>al_arr = [7], al_n = 2, al_length = 2305843009213693952\<rparr>
       = Inl (MemoryFault, \<lparr>al_arr = [7], al_n = 1, al_length = 2305843009213693952\<rparr>)"
    by (simp add: pop_back_def then_do_def store_def)
  show "push_back A \<lparr>al_arr = [7], al_n = 2, al_length = 2305843009213693952\<rparr> 4
       = Inl (MemoryFault, \<lparr>al_arr = [7], al_n = 2, al_length = 2305843009213693952\<rparr>)"
    by (simp add: push_back_def then_do_def store_def)
qed simp_all

subsection \<open>The demonstration program\<close>

text \<open>
  \<^verbatim>\<open>main.c\<close>: \<^verbatim>\<open>init(5)\<close>, three calls of \<^verbatim>\<open>push_back\<close> with the addresses of \<^verbatim>\<open>a\<close>,
  \<^verbatim>\<open>b\<close> and \<^verbatim>\<open>c\<close>; then the number of elements is 3, the capacity still 5, and the
  first slot holds the address of \<^verbatim>\<open>a\<close>.
\<close>

lemma main_demo:
  assumes "A sizeof_ArrayList \<noteq> None" "A 48 \<noteq> None"
  shows "\<exists>s0 s. init A 5 = Inr s0
           \<and> run s0 [Push_back A a, Push_back A b, Push_back A c] = Inr s
           \<and> get_number_of_elements s = 3 \<and> get_length s = 5
           \<and> al_arr s ! 0 = a \<and> elements s = [a, b, c]"
proof -
  have "init A 5 = Inr \<lparr>al_arr = replicate (unat (5::size_t) + 1) NULL, al_n = 0, al_length = 5\<rparr>"
    using assms by (intro init_ok) (simp_all add: sizeof_ptr_def)
  moreover have "unat (5::size_t) + 1 = 6"
    by simp
  moreover have "replicate 6 NULL = [0, 0, 0, 0, 0, 0]"
    by (simp add: NULL_def eval_nat_numeral)
  ultimately have i: "init A 5 = Inr \<lparr>al_arr = [0, 0, 0, 0, 0, 0], al_n = 0, al_length = 5\<rparr>"
    by (simp only:)
  have "run \<lparr>al_arr = [0, 0, 0, 0, 0, 0], al_n = 0, al_length = 5\<rparr>
          [Push_back A a, Push_back A b, Push_back A c]
        = Inr \<lparr>al_arr = [a, b, c, 0, 0, 0], al_n = 3, al_length = 5\<rparr>"
    by (simp add: push_back_def then_do_def store_def NULL_def)
  with i show ?thesis
    by (simp add: get_number_of_elements_def get_length_def elements_def)
qed

end
